theory Spec2Isabelle
  imports Main "HOL-Library.Sublist" "HOL-Library.Multiset"
begin

section \<open>Exceptions and the outcome of an awaited operation\<close>

text \<open>
  The module \<^verbatim>\<open>brewblox_service/events.py\<close> is asynchronous Python (3.6, as
  \<^verbatim>\<open>setup.py\<close> declares). Every \<^verbatim>\<open>await\<close> either returns or raises. The exception
  classes the module distinguishes are the constructors of \<open>exn\<close>; all of them derive from
  \<^verbatim>\<open>Exception\<close>. In Python 3.6 \<^verbatim>\<open>concurrent.futures.CancelledError\<close> and
  \<^verbatim>\<open>concurrent.futures.TimeoutError\<close> (the names the module imports) are the exceptions
  asyncio raises on cancellation and on \<^verbatim>\<open>wait_for\<close> timeouts, and both derive from
  \<^verbatim>\<open>Exception\<close>.
\<close>

datatype exn =
    CancelledError
  | TimeoutError
  | AioamqpException
  | AttributeError
  | TypeError
  | ValueError
  | QueueFull
  | RuntimeError
  | OtherError

datatype outcome = Ok | Raise exn

text \<open>
  What user code (a message callback) can raise: an \<^verbatim>\<open>Exception\<close>, or a
  \<^verbatim>\<open>BaseException\<close> outside that class (\<^verbatim>\<open>SystemExit\<close>, \<^verbatim>\<open>KeyboardInterrupt\<close>,
  \<^verbatim>\<open>GeneratorExit\<close>), which \<^verbatim>\<open>except Exception\<close> does not catch.
\<close>

datatype raised = Error exn | SystemExiting

fun is_Exception :: "raised \<Rightarrow> bool" where
  "is_Exception (Error e) = True"
| "is_Exception SystemExiting = False"

section \<open>EventSubscription\<close>

text \<open>
  A callback receives the routing key and the decoded message (its first argument, the
  subscription itself, is the receiver and is left implicit); it returns or raises.
  Calling it may write log lines, which are not modelled.
\<close>

type_synonym 'v callback = "string \<Rightarrow> 'v \<Rightarrow> raised + unit"

text \<open>
  \<open>sid\<close> is the identity of the Python object: two \<^verbatim>\<open>subscribe()\<close> calls with the same
  arguments create two different subscriptions.
\<close>

record 'v event_subscription =
  sid :: nat
  exchange_name :: string
  routing :: string
  exchange_type :: string
  on_message :: "'v callback"

definition default_on_message :: "'v callback" where
  "default_on_message key message = Inr ()"

text \<open>The \<^verbatim>\<open>on_message\<close> setter: \<^verbatim>\<open>f if f else _default_on_message\<close>.\<close>

definition set_on_message ::
  "'v callback option \<Rightarrow> 'v event_subscription \<Rightarrow> 'v event_subscription" where
  "set_on_message f sub =
     sub\<lparr>on_message := (case f of Some g \<Rightarrow> g | None \<Rightarrow> default_on_message)\<rparr>"

section \<open>EventListener\<close>

text \<open>
  The background task \<^verbatim>\<open>_listen\<close> is modelled by the await it is suspended at.
  \<open>NoTask\<close>: no task, or the task is done. \<open>Replay i\<close>: awaiting
  \<^verbatim>\<open>declare_on_remote\<close> of \<^verbatim>\<open>self._subscriptions[i]\<close> in the list comprehension.
  \<open>EnsureIdle\<close> and \<open>Get\<close>: the two awaits of the first inner \<^verbatim>\<open>try\<close>.
  \<open>EnsureDecl sub\<close> and \<open>Declare sub\<close>: the two awaits of the second inner \<^verbatim>\<open>try\<close>,
  with the local variable \<^verbatim>\<open>subscription\<close>. \<open>Sleep\<close>: the backoff in the
  \<^verbatim>\<open>except Exception\<close> handler. \<open>Close k\<close>: \<^verbatim>\<open>await protocol.close()\<close> in the
  \<^verbatim>\<open>finally\<close> block; \<open>k\<close> tells whether the outer loop continues afterwards.
\<close>

datatype 'v pc =
    NoTask
  | Connect
  | Channel
  | Replay nat
  | EnsureIdle
  | Get
  | EnsureDecl "'v event_subscription"
  | Declare "'v event_subscription"
  | Sleep
  | Close bool

text \<open>
  What the task does, recorded in order: a connection with its channel established
  (\<^verbatim>\<open>LOGGER.info(f'Connected {self}')\<close>; the action carries the active list of that
  moment), a \<^verbatim>\<open>declare_on_remote\<close> on the current channel that returned (\<open>True\<close>)
  or raised (\<open>False\<close>), a subscription taken from the pending queue.
\<close>

datatype 'v action =
    TConnect "'v event_subscription list"
  | TDeclare "'v event_subscription" bool
  | TDequeue "'v event_subscription"

text \<open>
  \<open>app_loop\<close>: whether \<^verbatim>\<open>self.app.loop\<close> is set. \<open>retrying\<close> and
  \<open>protocol_bound\<close> are locals of \<^verbatim>\<open>_listen\<close> (whether \<^verbatim>\<open>protocol\<close> and
  \<^verbatim>\<open>transport\<close> have been assigned). The last four fields are ghost state: the next
  object identity, the subscriptions \<^verbatim>\<open>subscribe\<close> stored, the subscriptions put into
  the pending queue (each \<^verbatim>\<open>put_nowait\<close>, in order), and the actions of the task.
\<close>

record 'v listener =
  app_loop :: bool
  pending_pre_async :: "'v event_subscription list option"
  pending :: "'v event_subscription list option"
  subscriptions :: "'v event_subscription list"
  task :: "'v pc"
  retrying :: bool
  protocol_bound :: bool
  next_sid :: nat
  accepted :: "'v event_subscription list"
  enqueued :: "'v event_subscription list"
  trace :: "'v action list"

definition init_listener :: "bool \<Rightarrow> 'v listener" where
  "init_listener loop =
     \<lparr>app_loop = loop, pending_pre_async = Some [], pending = None, subscriptions = [],
      task = NoTask, retrying = False, protocol_bound = False, next_sid = 0,
      accepted = [], enqueued = [], trace = []\<rparr>"

text \<open>
  \<^verbatim>\<open>_lazy_listen\<close>: creates the task when the loop is set, no task is running, and there
  is an active subscription or a non-empty pending queue. A new task starts
  \<^verbatim>\<open>_listen\<close> from its first line and is suspended at \<^verbatim>\<open>aioamqp.connect\<close>.
\<close>

definition lazy_listen :: "'v listener \<Rightarrow> 'v listener" where
  "lazy_listen s =
     (if app_loop s \<and> task s = NoTask \<and>
         (subscriptions s \<noteq> [] \<or> (case pending s of None \<Rightarrow> False | Some q \<Rightarrow> q \<noteq> []))
      then s\<lparr>task := Connect, retrying := False, protocol_bound := False\<rparr>
      else s)"

text \<open>
  \<^verbatim>\<open>subscribe\<close>. With neither queue nor holding list the \<^verbatim>\<open>append\<close> on
  \<^verbatim>\<open>None\<close> raises to the caller and nothing is stored. The pending queue is
  unbounded, and \<^verbatim>\<open>subscribe\<close> is taken to be called on the thread of the running
  event loop, as the task is, so that \<^verbatim>\<open>put_nowait\<close> stores the subscription and
  raises nothing.
\<close>

definition new_subscription ::
  "'v listener \<Rightarrow> string \<Rightarrow> string \<Rightarrow> string \<Rightarrow> 'v callback option \<Rightarrow> 'v event_subscription" where
  "new_subscription s ex rt et cb =
     set_on_message cb
       \<lparr>sid = next_sid s, exchange_name = ex, routing = rt, exchange_type = et,
        on_message = default_on_message\<rparr>"

definition subscribe ::
  "'v listener \<Rightarrow> string \<Rightarrow> string \<Rightarrow> string \<Rightarrow> 'v callback option \<Rightarrow> 'v listener" where
  "subscribe s ex rt et cb =
     (let sub = new_subscription s ex rt et cb;
          s0 = s\<lparr>next_sid := Suc (next_sid s)\<rparr>
      in case pending s of
           Some q \<Rightarrow>
             lazy_listen (s0\<lparr>pending := Some (q @ [sub]),
                              accepted := accepted s @ [sub],
                              enqueued := enqueued s @ [sub]\<rparr>)
         | None \<Rightarrow>
             (case pending_pre_async s of
                Some pre \<Rightarrow>
                  lazy_listen (s0\<lparr>pending_pre_async := Some (pre @ [sub]),
                                   accepted := accepted s @ [sub]\<rparr>)
              | None \<Rightarrow> s0))"

text \<open>
  \<^verbatim>\<open>startup\<close>: a fresh queue, the holding list transferred in order, the holding list
  dropped. Called a second time, the queue is replaced and the iteration over
  \<^verbatim>\<open>None\<close> raises.
\<close>

definition startup :: "'v listener \<Rightarrow> 'v listener" where
  "startup s =
     (case pending_pre_async s of
        None \<Rightarrow> s\<lparr>pending := Some []\<rparr>
      | Some pre \<Rightarrow>
          lazy_listen (s\<lparr>pending := Some pre, pending_pre_async := None,
                          enqueued := enqueued s @ pre\<rparr>))"

text \<open>
  The \<^verbatim>\<open>finally\<close> block. With \<^verbatim>\<open>protocol\<close> unbound the \<^verbatim>\<open>UnboundLocalError\<close> is
  swallowed at once; otherwise the task awaits \<^verbatim>\<open>protocol.close()\<close>. Afterwards the
  outer loop starts its next iteration (\<open>k\<close>) or the task ends.
\<close>

definition after_close :: "bool \<Rightarrow> 'v listener \<Rightarrow> 'v listener" where
  "after_close k s = s\<lparr>task := (if k then Connect else NoTask)\<rparr>"

definition finally_block :: "bool \<Rightarrow> 'v listener \<Rightarrow> 'v listener" where
  "finally_block k s = (if protocol_bound s then s\<lparr>task := Close k\<rparr> else after_close k s)"

text \<open>
  The handlers of the outer \<^verbatim>\<open>try\<close>: \<^verbatim>\<open>except CancelledError: break\<close>, and
  \<^verbatim>\<open>except Exception\<close>, which logs once per outage and sleeps.
\<close>

definition on_exception :: "exn \<Rightarrow> 'v listener \<Rightarrow> 'v listener" where
  "on_exception e s =
     (if e = CancelledError then finally_block False s
      else s\<lparr>retrying := True, task := Sleep\<rparr>)"

text \<open>
  The handler of the second inner \<^verbatim>\<open>try\<close>: \<^verbatim>\<open>self._pending.put_nowait(subscription)\<close>
  and re-raise.
\<close>

definition put_back :: "'v event_subscription \<Rightarrow> exn \<Rightarrow> 'v listener \<Rightarrow> 'v listener" where
  "put_back sub e s =
     (case pending s of
        None \<Rightarrow> on_exception AttributeError s
      | Some q \<Rightarrow>
          on_exception e (s\<lparr>pending := Some (q @ [sub]), enqueued := enqueued s @ [sub]\<rparr>))"

text \<open>
  After the channel is open, and after each replayed declaration: the list comprehension
  over \<^verbatim>\<open>self._subscriptions\<close> moves to index \<open>i\<close>, or is exhausted and the inner
  loop begins.
\<close>

definition replay_from :: "nat \<Rightarrow> 'v listener \<Rightarrow> 'v listener" where
  "replay_from i s =
     (if i < length (subscriptions s) then s\<lparr>task := Replay i\<rparr> else s\<lparr>task := EnsureIdle\<rparr>)"

text \<open>
  One step of the task: the await it is suspended at completes with \<open>out\<close>.
  \<^verbatim>\<open>declare_on_remote\<close> (four broker calls in a row) is one step: it returns or
  raises. \<^verbatim>\<open>asyncio.wait_for(self._pending.get(), ...)\<close> returns the head of the
  queue, or raises and takes nothing; on an empty queue it cannot return, so that step
  leaves the state as it is. The exception handlers are those of Python 3.6, where
  \<^verbatim>\<open>except Exception\<close> also catches \<^verbatim>\<open>CancelledError\<close> and \<^verbatim>\<open>TimeoutError\<close>.
\<close>

definition listen_step :: "outcome \<Rightarrow> 'v listener \<Rightarrow> 'v listener" where
  "listen_step out s =
     (case task s of
        NoTask \<Rightarrow> s
      | Connect \<Rightarrow>
          (case out of
             Ok \<Rightarrow> s\<lparr>protocol_bound := True, task := Channel\<rparr>
           | Raise e \<Rightarrow> on_exception e s)
      | Channel \<Rightarrow>
          (case out of
             Ok \<Rightarrow> replay_from 0 (s\<lparr>trace := trace s @ [TConnect (subscriptions s)]\<rparr>)
           | Raise e \<Rightarrow> on_exception e s)
      | Replay i \<Rightarrow>
          (if i < length (subscriptions s) then
             (case out of
                Ok \<Rightarrow>
                  replay_from (Suc i)
                    (s\<lparr>trace := trace s @ [TDeclare (subscriptions s ! i) True]\<rparr>)
              | Raise e \<Rightarrow>
                  on_exception e
                    (s\<lparr>trace := trace s @ [TDeclare (subscriptions s ! i) False]\<rparr>))
           else s\<lparr>task := EnsureIdle\<rparr>)
      | EnsureIdle \<Rightarrow>
          (case out of
             Ok \<Rightarrow> s\<lparr>retrying := False, task := Get\<rparr>
           | Raise e \<Rightarrow> if e = TimeoutError then s else on_exception e s)
      | Get \<Rightarrow>
          (case out of
             Ok \<Rightarrow>
               (case pending s of
                  None \<Rightarrow> on_exception AttributeError s
                | Some [] \<Rightarrow> s
                | Some (sub # q) \<Rightarrow>
                    s\<lparr>pending := Some q, task := EnsureDecl sub,
                      trace := trace s @ [TDequeue sub]\<rparr>)
           | Raise e \<Rightarrow> if e = TimeoutError then s\<lparr>task := EnsureIdle\<rparr> else on_exception e s)
      | EnsureDecl sub \<Rightarrow>
          (case out of
             Ok \<Rightarrow> s\<lparr>task := Declare sub\<rparr>
           | Raise e \<Rightarrow> put_back sub e s)
      | Declare sub \<Rightarrow>
          (case out of
             Ok \<Rightarrow>
               s\<lparr>subscriptions := subscriptions s @ [sub], task := EnsureIdle,
                 trace := trace s @ [TDeclare sub True]\<rparr>
           | Raise e \<Rightarrow> put_back sub e (s\<lparr>trace := trace s @ [TDeclare sub False]\<rparr>))
      | Sleep \<Rightarrow>
          (case out of
             Ok \<Rightarrow> finally_block True s
           | Raise e \<Rightarrow> finally_block False s)
      | Close k \<Rightarrow> after_close k s)"

text \<open>
  What happens to a listener after startup: a \<^verbatim>\<open>subscribe\<close> call from any other
  coroutine (they run between two steps of the task), or a step of the task.
  Cancelling the task (\<^verbatim>\<open>shutdown\<close>) is the outcome \<open>Raise CancelledError\<close>.
\<close>

datatype 'v event =
    Subscribe string string string "'v callback option"
  | Done outcome

fun step :: "'v listener \<Rightarrow> 'v event \<Rightarrow> 'v listener" where
  "step s (Subscribe ex rt et cb) = subscribe s ex rt et cb"
| "step s (Done out) = listen_step out s"

definition run :: "'v listener \<Rightarrow> 'v event list \<Rightarrow> 'v listener" where
  "run s evs = foldl step s evs"

text \<open>
  The listener as the host application starts it: the \<^verbatim>\<open>subscribe\<close> calls made
  before startup, then the startup hook, called once.
\<close>

fun subscribe_args ::
  "'v listener \<Rightarrow> string \<times> string \<times> string \<times> 'v callback option \<Rightarrow> 'v listener" where
  "subscribe_args s (ex, rt, et, cb) = subscribe s ex rt et cb"

definition started ::
  "bool \<Rightarrow> (string \<times> string \<times> string \<times> 'v callback option) list \<Rightarrow> 'v listener" where
  "started loop pre = startup (foldl subscribe_args (init_listener loop) pre)"

subsection \<open>Where a subscription is, and what the task did\<close>

text \<open>
  The pending collection is the pre-start holding list followed by the pending queue.
  Between \<^verbatim>\<open>self._pending.get()\<close> and \<^verbatim>\<open>self._subscriptions.append(subscription)\<close>
  the subscription is only in the local variable of the task.
\<close>

definition queue_of :: "'v listener \<Rightarrow> 'v event_subscription list" where
  "queue_of s = (case pending s of None \<Rightarrow> [] | Some q \<Rightarrow> q)"

definition pending_all :: "'v listener \<Rightarrow> 'v event_subscription list" where
  "pending_all s = (case pending_pre_async s of None \<Rightarrow> [] | Some pre \<Rightarrow> pre) @ queue_of s"

fun flight :: "'v pc \<Rightarrow> 'v event_subscription list" where
  "flight (EnsureDecl sub) = [sub]"
| "flight (Declare sub) = [sub]"
| "flight NoTask = []"
| "flight Connect = []"
| "flight Channel = []"
| "flight (Replay i) = []"
| "flight EnsureIdle = []"
| "flight Get = []"
| "flight Sleep = []"
| "flight (Close k) = []"

definition in_flight :: "'v listener \<Rightarrow> 'v event_subscription list" where
  "in_flight s = flight (task s)"

definition held :: "'v listener \<Rightarrow> 'v event_subscription list" where
  "held s = pending_all s @ in_flight s @ subscriptions s"

text \<open>The subscriptions the task took from the queue, and those it declared, in order.\<close>

fun dequeue1 :: "'v action \<Rightarrow> 'v event_subscription list" where
  "dequeue1 (TDequeue x) = [x]"
| "dequeue1 (TConnect subs) = []"
| "dequeue1 (TDeclare x ok) = []"

definition dequeued :: "'v action list \<Rightarrow> 'v event_subscription list" where
  "dequeued tr = concat (map dequeue1 tr)"

fun declare1 :: "'v action \<Rightarrow> 'v event_subscription list" where
  "declare1 (TDeclare x ok) = (if ok then [x] else [])"
| "declare1 (TConnect subs) = []"
| "declare1 (TDequeue x) = []"

definition declared :: "'v action list \<Rightarrow> 'v event_subscription list" where
  "declared tr = concat (map declare1 tr)"

fun is_connect :: "'v action \<Rightarrow> bool" where
  "is_connect (TConnect subs) = True"
| "is_connect (TDeclare x ok) = False"
| "is_connect (TDequeue x) = False"

text \<open>
  The current session of a trace: the active list recorded by the last connection, and
  the actions since.
\<close>

fun session_step ::
  "('v event_subscription list \<times> 'v action list) option \<Rightarrow> 'v action \<Rightarrow>
   ('v event_subscription list \<times> 'v action list) option" where
  "session_step c (TConnect subs) = Some (subs, [])"
| "session_step c (TDeclare x ok) = map_option (\<lambda>(subs, seg). (subs, seg @ [TDeclare x ok])) c"
| "session_step c (TDequeue x) = map_option (\<lambda>(subs, seg). (subs, seg @ [TDequeue x])) c"

definition session :: "'v action list \<Rightarrow> ('v event_subscription list \<times> 'v action list) option" where
  "session tr = foldl session_step None tr"

subsection \<open>Invariants of the listener\<close>

text \<open>
  After startup the queue exists and the holding list is gone; before startup it is the
  other way round, no task runs and nothing was put into the queue.
\<close>

definition is_started :: "'v listener \<Rightarrow> bool" where
  "is_started s \<longleftrightarrow> pending s \<noteq> None \<and> pending_pre_async s = None"

definition unstarted :: "'v listener \<Rightarrow> bool" where
  "unstarted s \<longleftrightarrow>
     pending s = None \<and> pending_pre_async s \<noteq> None \<and> task s = NoTask \<and> trace s = [] \<and>
     subscriptions s = [] \<and> enqueued s = []"

text \<open>
  Every stored subscription is in one of the three places, once; object identities are
  never reused.
\<close>

definition placed :: "'v listener \<Rightarrow> bool" where
  "placed s \<longleftrightarrow>
     mset (held s) = mset (accepted s) \<and> distinct (map sid (accepted s)) \<and>
     (\<forall>x \<in> set (accepted s). sid x < next_sid s)"

text \<open>What was taken from the queue, followed by the queue, is what was put into it.\<close>

definition fifo :: "'v listener \<Rightarrow> bool" where
  "fifo s \<longleftrightarrow> dequeued (trace s) @ queue_of s = enqueued s"

text \<open>
  Properties of a trace. \<open>replay_first\<close>: whenever a subscription is taken from the
  queue, the actions of the session so far begin with the successful declaration of
  every subscription that was active when the session connected, in the order of the
  active list. \<open>snapshots_grow\<close>: the active list at a connection is a prefix of the
  active list at every later connection. \<open>replay_ordered\<close>: within a session, the
  subscriptions declared so far and the active list at the connection agree position by
  position. \<open>snapshots_active\<close>: the active list at a connection is a prefix of the
  current active list.
\<close>

abbreviation declared_ok :: "'v event_subscription \<Rightarrow> 'v action" where
  "declared_ok x \<equiv> TDeclare x True"

definition replay_first :: "'v action list \<Rightarrow> bool" where
  "replay_first tr \<longleftrightarrow>
     (\<forall>before subs seg p after.
        tr = before @ TConnect subs # seg @ TDequeue p # after \<and> (\<forall>a \<in> set seg. \<not> is_connect a)
        \<longrightarrow> prefix (map declared_ok subs) seg)"

definition snapshots_grow :: "'v action list \<Rightarrow> bool" where
  "snapshots_grow tr \<longleftrightarrow>
     (\<forall>a s1 b s2 c. tr = a @ TConnect s1 # b @ TConnect s2 # c \<longrightarrow> prefix s1 s2)"

definition replay_ordered :: "'v action list \<Rightarrow> bool" where
  "replay_ordered tr \<longleftrightarrow>
     (\<forall>a subs seg rest.
        tr = a @ TConnect subs # seg @ rest \<and> (\<forall>x \<in> set seg. \<not> is_connect x)
        \<longrightarrow> prefix (declared seg) subs \<or> prefix subs (declared seg))"

definition snapshots_active :: "'v listener \<Rightarrow> bool" where
  "snapshots_active s \<longleftrightarrow>
     (\<forall>a subs b. trace s = a @ TConnect subs # b \<longrightarrow> prefix subs (subscriptions s))"

definition traces_ok :: "'v listener \<Rightarrow> bool" where
  "traces_ok s \<longleftrightarrow>
     replay_first (trace s) \<and> snapshots_grow (trace s) \<and> replay_ordered (trace s) \<and>
     snapshots_active s"

text \<open>
  What holds at the awaits of the task. In the inner loop the current session began with
  the whole replay and has declared exactly the active list; at index \<open>i\<close> of the
  replay the session consists of the declarations of the first \<open>i\<close> active
  subscriptions.
\<close>

definition loop_ok :: "'v listener \<Rightarrow> bool" where
  "loop_ok s \<longleftrightarrow>
     (\<exists>subs seg. session (trace s) = Some (subs, seg) \<and> prefix (map declared_ok subs) seg \<and>
        declared seg = subscriptions s)"

definition replay_ok :: "nat \<Rightarrow> 'v listener \<Rightarrow> bool" where
  "replay_ok i s \<longleftrightarrow>
     i < length (subscriptions s) \<and>
     session (trace s) = Some (subscriptions s, map declared_ok (take i (subscriptions s)))"

fun pc_ok :: "'v pc \<Rightarrow> 'v listener \<Rightarrow> bool" where
  "pc_ok (Replay i) s = replay_ok i s"
| "pc_ok EnsureIdle s = loop_ok s"
| "pc_ok Get s = loop_ok s"
| "pc_ok (EnsureDecl x) s = loop_ok s"
| "pc_ok (Declare x) s = loop_ok s"
| "pc_ok NoTask s = True"
| "pc_ok Connect s = True"
| "pc_ok Channel s = True"
| "pc_ok Sleep s = True"
| "pc_ok (Close k) s = True"

definition sess :: "'v listener \<Rightarrow> bool" where
  "sess s \<longleftrightarrow> traces_ok s \<and> pc_ok (task s) s"

definition linv :: "'v listener \<Rightarrow> bool" where
  "linv s \<longleftrightarrow> is_started s \<and> placed s \<and> fifo s \<and> sess s"

text \<open>
  \<open>declared_next y x\<close>: the action \<open>x\<close> may follow the action \<open>y\<close>. After taking a
  subscription from the queue the task declares that subscription, or, when the open
  check before the declaration failed, connects again. \<open>tail_pc\<close> tells what the last
  action is at each await.
\<close>

fun declared_next :: "'v action \<Rightarrow> 'v action \<Rightarrow> bool" where
  "declared_next (TDequeue p) (TDeclare x ok) = (x = p)"
| "declared_next (TDequeue p) (TConnect subs) = True"
| "declared_next (TDequeue p) (TDequeue q) = False"
| "declared_next (TConnect subs) y = True"
| "declared_next (TDeclare x ok) y = True"

fun tail_pc :: "'v pc \<Rightarrow> 'v action list \<Rightarrow> bool" where
  "tail_pc (EnsureDecl x) tr = (tr \<noteq> [] \<and> last tr = TDequeue x)"
| "tail_pc (Declare x) tr = (tr \<noteq> [] \<and> last tr = TDequeue x)"
| "tail_pc (Replay i) tr = (tr \<noteq> [] \<and> dequeue1 (last tr) = [])"
| "tail_pc EnsureIdle tr = (tr \<noteq> [] \<and> dequeue1 (last tr) = [])"
| "tail_pc Get tr = (tr \<noteq> [] \<and> dequeue1 (last tr) = [])"
| "tail_pc NoTask tr = True"
| "tail_pc Connect tr = True"
| "tail_pc Channel tr = True"
| "tail_pc Sleep tr = True"
| "tail_pc (Close k) tr = True"

definition tail_ok :: "'v listener \<Rightarrow> bool" where
  "tail_ok s \<longleftrightarrow> successively declared_next (trace s) \<and> tail_pc (task s) (trace s)"

text \<open>The subscriptions created by a list of \<^verbatim>\<open>subscribe\<close> calls, in order.\<close>

fun arrivals ::
  "'v listener \<Rightarrow> (string \<times> string \<times> string \<times> 'v callback option) list \<Rightarrow>
   'v event_subscription list" where
  "arrivals s [] = []"
| "arrivals s ((ex, rt, et, cb) # rest) =
     new_subscription s ex rt et cb # arrivals (subscribe s ex rt et cb) rest"

section \<open>EventPublisher\<close>

text \<open>
  The three attributes of the publisher hold the connection they belong to (connections
  are numbered in the order \<^verbatim>\<open>aioamqp.connect\<close> returns them), or \<^verbatim>\<open>None\<close>.
\<close>

record publisher =
  transport :: "nat option"
  protocol :: "nat option"
  channel :: "nat option"

text \<open>
  The broker side, as the publisher sees it: \<open>script\<close> gives the outcome of each
  awaited operation in the order they are awaited (an exhausted script answers
  \<open>Ok\<close>), \<open>live\<close> lists the connections that were opened and not closed,
  \<open>calls\<close> records every operation, \<open>sent\<close> the messages handed to
  \<^verbatim>\<open>basic_publish\<close>.
\<close>

datatype call =
    CEnsureChannel
  | CConnect
  | CChannel
  | CEnsureOpen
  | CProtocolClose
  | CTransportClose
  | CExchangeDeclare
  | CBasicPublish

record 'd broker =
  script :: "outcome list"
  live :: "nat list"
  next_conn :: nat
  calls :: "call list"
  sent :: "(string \<times> string \<times> 'd) list"

definition await :: "call \<Rightarrow> 'd broker \<Rightarrow> outcome \<times> 'd broker" where
  "await c b =
     (case script b of
        [] \<Rightarrow> (Ok, b\<lparr>calls := calls b @ [c]\<rparr>)
      | out # rest \<Rightarrow> (out, b\<lparr>script := rest, calls := calls b @ [c]\<rparr>))"

definition connected :: "publisher \<Rightarrow> bool" where
  "connected p \<longleftrightarrow> transport p \<noteq> None \<and> protocol p \<noteq> None \<and> channel p \<noteq> None"

definition reset :: publisher where
  "reset = \<lparr>transport = None, protocol = None, channel = None\<rparr>"

text \<open>
  \<^verbatim>\<open>_close\<close>: \<^verbatim>\<open>await self._protocol.close()\<close>, then \<^verbatim>\<open>self._transport.close()\<close>;
  any exception (also the \<^verbatim>\<open>AttributeError\<close> on \<^verbatim>\<open>None\<close>) is swallowed and skips
  what follows in the \<^verbatim>\<open>try\<close>; \<^verbatim>\<open>_reset\<close> runs in every case.
\<close>

definition close_session :: "publisher \<Rightarrow> 'd broker \<Rightarrow> publisher \<times> 'd broker" where
  "close_session p b =
     (case protocol p of
        None \<Rightarrow> (reset, b)
      | Some c \<Rightarrow>
          (case await CProtocolClose b of
             (Raise e, b1) \<Rightarrow> (reset, b1)
           | (Ok, b1) \<Rightarrow>
               (let b2 = b1\<lparr>live := removeAll c (live b1)\<rparr> in
                case transport p of
                  None \<Rightarrow> (reset, b2)
                | Some t \<Rightarrow>
                    (reset, b2\<lparr>live := removeAll t (live b2),
                               calls := calls b2 @ [CTransportClose]\<rparr>))))"

text \<open>
  The second half of \<^verbatim>\<open>_ensure_channel\<close>: \<^verbatim>\<open>await self._protocol.ensure_open()\<close>,
  closing the session on an \<^verbatim>\<open>AioamqpException\<close> only, and re-raising.
\<close>

definition ensure_open_part ::
  "publisher \<Rightarrow> 'd broker \<Rightarrow> (exn + unit) \<times> publisher \<times> 'd broker" where
  "ensure_open_part p b =
     (case protocol p of
        None \<Rightarrow> (Inl AttributeError, p, b)
      | Some c \<Rightarrow>
          (case await CEnsureOpen b of
             (Ok, b1) \<Rightarrow> (Inr (), p, b1)
           | (Raise e, b1) \<Rightarrow>
               (if e = AioamqpException
                then (case close_session p b1 of (p2, b2) \<Rightarrow> (Inl e, p2, b2))
                else (Inl e, p, b1))))"

text \<open>
  \<^verbatim>\<open>_ensure_channel\<close>. The tuple assignment of transport and protocol happens when
  \<^verbatim>\<open>aioamqp.connect\<close> returns; the channel is assigned when \<^verbatim>\<open>protocol.channel()\<close>
  returns.
\<close>

definition ensure_channel ::
  "publisher \<Rightarrow> 'd broker \<Rightarrow> (exn + unit) \<times> publisher \<times> 'd broker" where
  "ensure_channel p b =
     (let b0 = b\<lparr>calls := calls b @ [CEnsureChannel]\<rparr> in
      if connected p then ensure_open_part p b0
      else
        (case await CConnect b0 of
           (Raise e, b1) \<Rightarrow> (Inl e, p, b1)
         | (Ok, b1) \<Rightarrow>
             (let c = next_conn b1;
                  b2 = b1\<lparr>live := live b1 @ [c], next_conn := Suc c\<rparr>;
                  p1 = p\<lparr>transport := Some c, protocol := Some c\<rparr>
              in case await CChannel b2 of
                   (Raise e, b3) \<Rightarrow> (Inl e, p1, b3)
                 | (Ok, b3) \<Rightarrow> ensure_open_part (p1\<lparr>channel := Some c\<rparr>) b3)))"

text \<open>
  The rest of \<^verbatim>\<open>publish\<close> after the connection is ensured. \<open>dumps\<close> stands for
  \<^verbatim>\<open>json.dumps(message).encode()\<close> of the standard library, which returns the body
  or raises.
\<close>

definition send ::
  "('m \<Rightarrow> exn + 'd) \<Rightarrow> publisher \<Rightarrow> 'd broker \<Rightarrow> string \<Rightarrow> string \<Rightarrow> 'm \<Rightarrow>
   (exn + unit) \<times> publisher \<times> 'd broker" where
  "send dumps p b exchange rkey message =
     (case dumps message of
        Inl e \<Rightarrow> (Inl e, p, b)
      | Inr data \<Rightarrow>
          (case channel p of
             None \<Rightarrow> (Inl AttributeError, p, b)
           | Some ch \<Rightarrow>
               (case await CExchangeDeclare b of
                  (Raise e, b1) \<Rightarrow> (Inl e, p, b1)
                | (Ok, b1) \<Rightarrow>
                    (case await CBasicPublish b1 of
                       (Raise e, b2) \<Rightarrow> (Inl e, p, b2)
                     | (Ok, b2) \<Rightarrow>
                         (Inr (), p, b2\<lparr>sent := sent b2 @ [(exchange, rkey, data)]\<rparr>)))))"

definition publish ::
  "('m \<Rightarrow> exn + 'd) \<Rightarrow> publisher \<Rightarrow> 'd broker \<Rightarrow> string \<Rightarrow> string \<Rightarrow> 'm \<Rightarrow>
   (exn + unit) \<times> publisher \<times> 'd broker" where
  "publish dumps p b exchange rkey message =
     (case ensure_channel p b of
        (Inr u, p1, b1) \<Rightarrow> send dumps p1 b1 exchange rkey message
      | (Inl e, p1, b1) \<Rightarrow>
          (case ensure_channel p1 b1 of
             (Inl e2, p2, b2) \<Rightarrow> (Inl e2, p2, b2)
           | (Inr u, p2, b2) \<Rightarrow> send dumps p2 b2 exchange rkey message))"

text \<open>\<^verbatim>\<open>shutdown\<close> of the publisher is \<^verbatim>\<open>_close\<close>.\<close>

definition publisher_shutdown :: "publisher \<Rightarrow> 'd broker \<Rightarrow> publisher \<times> 'd broker" where
  "publisher_shutdown p b = close_session p b"

text \<open>How many times \<^verbatim>\<open>_ensure_channel\<close> was entered.\<close>

definition ensure_attempts :: "call list \<Rightarrow> nat" where
  "ensure_attempts cs = length (filter (\<lambda>c. c = CEnsureChannel) cs)"

definition fresh_broker :: "outcome list \<Rightarrow> 'd broker" where
  "fresh_broker outs = \<lparr>script = outs, live = [], next_conn = 0, calls = [], sent = []\<rparr>"

section \<open>The relay of a subscription\<close>

text \<open>
  \<^verbatim>\<open>_relay\<close>: \<^verbatim>\<open>json.loads(body)\<close> is evaluated, the callback currently stored in the
  subscription is called, and \<^verbatim>\<open>except Exception\<close> logs. \<open>loads\<close> stands for
  \<^verbatim>\<open>json.loads\<close>; the log lines written by \<^verbatim>\<open>LOGGER.error\<close> are appended to
  \<open>log\<close>. The result is \<open>Inl\<close> when something propagates to the caller.
\<close>

definition relay ::
  "'v event_subscription \<Rightarrow> ('b \<Rightarrow> raised + 'v) \<Rightarrow> string \<Rightarrow> 'b \<Rightarrow> string list \<Rightarrow>
   raised + string list" where
  "relay sub loads rkey body log =
     (case (case loads body of
              Inl e \<Rightarrow> Inl e
            | Inr message \<Rightarrow> on_message sub rkey message) of
        Inr u \<Rightarrow> Inr log
      | Inl e \<Rightarrow>
          (if is_Exception e then Inr (log @ [''Exception relaying message'']) else Inl e))"

section \<open>The JSON codec\<close>

















section \<open>EventLogHandler\<close>

text \<open>
  An \<^verbatim>\<open>asyncio.Queue\<close> of the standard library, as far as the handler uses it.
  \<^verbatim>\<open>maxsize\<close> zero or less means unbounded. \<open>getters\<close> counts the coroutines
  suspended in \<^verbatim>\<open>get()\<close> on the empty queue whose wake-up is still due (the futures
  in \<^verbatim>\<open>_getters\<close>).
\<close>

record 'r queue =
  items :: "'r list"
  maxsize :: nat
  getters :: nat

definition full :: "'r queue \<Rightarrow> bool" where
  "full q \<longleftrightarrow> 0 < maxsize q \<and> maxsize q \<le> length (items q)"

text \<open>
  \<^verbatim>\<open>put_nowait\<close> raises \<^verbatim>\<open>QueueFull\<close> when the queue is full and changes nothing.
  Otherwise it stores the item and then wakes the first waiting getter:
  \<^verbatim>\<open>_wakeup_next\<close> takes the future from \<^verbatim>\<open>_getters\<close> and sets its result, which
  schedules the waiting task through \<^verbatim>\<open>loop.call_soon\<close>. \<^verbatim>\<open>call_soon\<close> raises
  \<^verbatim>\<open>RuntimeError\<close> when the loop is closed or, in debug mode, when it is called from
  a thread other than the loop's (\<open>loop_accepts\<close> false); the item is then already
  stored and the getter already taken from the waiters. The result is the exception
  raised, if any, and the queue afterwards.
\<close>

definition put_nowait :: "'r queue \<Rightarrow> bool \<Rightarrow> 'r \<Rightarrow> exn option \<times> 'r queue" where
  "put_nowait q loop_accepts x =
     (if full q then (Some QueueFull, q)
      else if getters q = 0 then (None, q\<lparr>items := items q @ [x]\<rparr>)
      else (if loop_accepts then None else Some RuntimeError,
            q\<lparr>items := items q @ [x], getters := getters q - 1\<rparr>))"

text \<open>
  A coroutine entering \<^verbatim>\<open>get()\<close> on an empty queue appends a future to
  \<^verbatim>\<open>_getters\<close> and awaits it; when that await raises, \<^verbatim>\<open>get()\<close> removes the
  future if it is still there.
\<close>

definition add_getter :: "'r queue \<Rightarrow> 'r queue" where
  "add_getter q = (if items q = [] then q\<lparr>getters := Suc (getters q)\<rparr> else q)"

definition remove_getter :: "'r queue \<Rightarrow> 'r queue" where
  "remove_getter q = (if getters q = 0 then q else q\<lparr>getters := getters q - 1\<rparr>)"

text \<open>
  The task \<^verbatim>\<open>_run\<close>, by the await it is suspended at: \<^verbatim>\<open>self._queue.get()\<close>,
  \<^verbatim>\<open>publisher.publish(...)\<close> (with the evaluation of its arguments), or the sleep of
  the \<^verbatim>\<open>except Exception\<close> handler. \<open>h_record\<close> is the local variable
  \<^verbatim>\<open>record\<close>; \<open>published\<close> and \<open>queued\<close> are ghost state: the records whose
  publish returned, and the records \<^verbatim>\<open>emit\<close> put into the queue.
\<close>

datatype hpc = HNoTask | HGet | HPublish | HSleep

record 'r log_handler =
  h_queue :: "'r queue option"
  h_task :: hpc
  h_record :: "'r option"
  published :: "'r list"
  queued :: "'r list"

definition init_handler :: "'r log_handler" where
  "init_handler = \<lparr>h_queue = None, h_task = HNoTask, h_record = None, published = [], queued = []\<rparr>"

text \<open>
  \<^verbatim>\<open>emit\<close>: \<^verbatim>\<open>self._queue.put_nowait(record)\<close> under
  \<^verbatim>\<open>except (AttributeError, asyncio.QueueFull): pass\<close>. It is an ordinary function: it
  awaits nothing. \<open>emit_try\<close> is the body of the \<^verbatim>\<open>try\<close>: what it raises, and the
  handler afterwards (on \<^verbatim>\<open>None\<close> the attribute lookup raises; a record counts as
  put into the queue unless the queue was full). \<open>emit\<close> gives what reaches the caller.
\<close>

definition emit_try :: "'r log_handler \<Rightarrow> bool \<Rightarrow> 'r \<Rightarrow> exn option \<times> 'r log_handler" where
  "emit_try h loop_accepts r =
     (case h_queue h of
        None \<Rightarrow> (Some AttributeError, h)
      | Some q \<Rightarrow>
          (case put_nowait q loop_accepts r of
             (err, q') \<Rightarrow>
               (err, h\<lparr>h_queue := Some q',
                       queued := (if err = Some QueueFull then queued h else queued h @ [r])\<rparr>)))"

definition emit :: "'r log_handler \<Rightarrow> bool \<Rightarrow> 'r \<Rightarrow> exn option \<times> 'r log_handler" where
  "emit h loop_accepts r =
     (case emit_try h loop_accepts r of
        (None, h') \<Rightarrow> (None, h')
      | (Some e, h') \<Rightarrow> (if e = AttributeError \<or> e = QueueFull then None else Some e, h'))"

text \<open>The top of the loop in \<^verbatim>\<open>_run\<close>: \<^verbatim>\<open>record = record or await self._queue.get()\<close>.\<close>

definition loop_top :: "'r log_handler \<Rightarrow> 'r log_handler" where
  "loop_top h =
     (case h_record h of
        Some r \<Rightarrow> h\<lparr>h_task := HPublish\<rparr>
      | None \<Rightarrow>
          (case h_queue h of
             None \<Rightarrow> h\<lparr>h_task := HSleep\<rparr>
           | Some q \<Rightarrow> h\<lparr>h_queue := Some (add_getter q), h_task := HGet\<rparr>))"

text \<open>\<^verbatim>\<open>startup\<close> of the handler: a queue with the default \<^verbatim>\<open>maxsize\<close>, and the task.\<close>

definition handler_startup :: "'r log_handler \<Rightarrow> 'r log_handler" where
  "handler_startup h =
     loop_top (h\<lparr>h_queue := Some \<lparr>items = [], maxsize = 0, getters = 0\<rparr>, h_record := None\<rparr>)"

definition handler_except :: "exn \<Rightarrow> 'r log_handler \<Rightarrow> 'r log_handler" where
  "handler_except e h = (if e = CancelledError then h\<lparr>h_task := HNoTask\<rparr> else h\<lparr>h_task := HSleep\<rparr>)"

definition run_step :: "outcome \<Rightarrow> 'r log_handler \<Rightarrow> 'r log_handler" where
  "run_step out h =
     (case h_task h of
        HNoTask \<Rightarrow> h
      | HGet \<Rightarrow>
          (case out of
             Raise e \<Rightarrow> handler_except e (h\<lparr>h_queue := map_option remove_getter (h_queue h)\<rparr>)
           | Ok \<Rightarrow>
               (case h_queue h of
                  None \<Rightarrow> h
                | Some q \<Rightarrow>
                    (case items q of
                       [] \<Rightarrow> h
                     | r # rest \<Rightarrow>
                         h\<lparr>h_queue := Some (q\<lparr>items := rest\<rparr>), h_record := Some r,
                           h_task := HPublish\<rparr>)))
      | HPublish \<Rightarrow>
          (case out of
             Raise e \<Rightarrow> handler_except e h
           | Ok \<Rightarrow>
               (case h_record h of
                  None \<Rightarrow> h\<lparr>h_task := HSleep\<rparr>
                | Some r \<Rightarrow>
                    loop_top (h\<lparr>published := published h @ [r], h_record := None\<rparr>)))
      | HSleep \<Rightarrow>
          (case out of
             Ok \<Rightarrow> loop_top h
           | Raise e \<Rightarrow> h\<lparr>h_task := HNoTask\<rparr>))"

text \<open>
  What happens to a handler: a call of \<^verbatim>\<open>emit\<close> (from any thread, with the loop
  accepting the wake-up or not), whose exception, if any, goes to the caller while the
  handler stays as \<^verbatim>\<open>emit\<close> left it; or a step of the task.
\<close>

datatype 'r hevent = Emit 'r bool | HDone outcome

fun hstep :: "'r log_handler \<Rightarrow> 'r hevent \<Rightarrow> 'r log_handler" where
  "hstep h (Emit r loop_accepts) = snd (emit h loop_accepts r)"
| "hstep h (HDone out) = run_step out h"

definition hrun :: "'r log_handler \<Rightarrow> 'r hevent list \<Rightarrow> 'r log_handler" where
  "hrun h evs = foldl hstep h evs"

definition in_hand :: "'r log_handler \<Rightarrow> 'r list" where
  "in_hand h = (case h_record h of None \<Rightarrow> [] | Some r \<Rightarrow> [r])"

definition waiting :: "'r log_handler \<Rightarrow> 'r list" where
  "waiting h = (case h_queue h of None \<Rightarrow> [] | Some q \<Rightarrow> items q)"

text \<open>
  What the drain loop relies on between two steps: the record in hand, the queue and the
  published records together are the records that were put into the queue, in order;
  and while the task waits on the queue it has no record in hand.
\<close>

definition hinv :: "'r log_handler \<Rightarrow> bool" where
  "hinv h \<longleftrightarrow>
     published h @ in_hand h @ waiting h = queued h \<and> (h_task h = HGet \<longrightarrow> h_record h = None)"

section \<open>Concrete scenarios\<close>

text \<open>A handler that has taken the first of two emitted records and is publishing it.\<close>

definition example_handler :: "nat log_handler" where
  "example_handler = hrun (handler_startup init_handler) [Emit 1 True, Emit 2 True, HDone Ok]"

text \<open>A subscription whose callback raises on the message \<open>0\<close>, and a decoder that fails
  on every body but two.\<close>

definition raising_subscription :: "nat event_subscription" where
  "raising_subscription =
     \<lparr>sid = 0, exchange_name = ''brewblox'', routing = ''controller.#'', exchange_type = ''topic'',
      on_message = (\<lambda>key message. if message = 0 then Inl (Error ValueError) else Inr ())\<rparr>"

definition example_loads :: "string \<Rightarrow> raised + nat" where
  "example_loads body =
     (if body = ''0'' then Inr 0 else if body = ''1'' then Inr 1 else Inl (Error ValueError))"

text \<open>
  A listener with one subscription made before startup. After connecting, opening the
  channel and the open check, the task takes the subscription from the queue
  (\<open>declaring_state\<close>) and, the second open check passed, declares it
  (\<open>declaring_sub0\<close>).
\<close>

definition sub0 :: "nat event_subscription" where
  "sub0 = \<lparr>sid = 0, exchange_name = ''brewblox'', routing = ''controller.#'',
           exchange_type = ''topic'', on_message = default_on_message\<rparr>"

definition sub1 :: "nat event_subscription" where
  "sub1 = \<lparr>sid = 1, exchange_name = ''brewblox'', routing = ''sensor.*'',
           exchange_type = ''topic'', on_message = default_on_message\<rparr>"

definition example_pre :: "(string \<times> string \<times> string \<times> nat callback option) list" where
  "example_pre = [(''brewblox'', ''controller.#'', ''topic'', None)]"

definition declaring_events :: "nat event list" where
  "declaring_events = [Done Ok, Done Ok, Done Ok, Done Ok]"

definition declaring_state :: "nat listener" where
  "declaring_state = run (started True example_pre) declaring_events"

definition declaring_sub0 :: "nat listener" where
  "declaring_sub0 = listen_step Ok declaring_state"

text \<open>
  The same listener: the subscription is declared and becomes active, the next open check
  fails, a second subscription arrives during the outage, the task sleeps, closes,
  reconnects, replays the active subscription and takes the new one from the queue.
\<close>

definition reconnect_events :: "nat event list" where
  "reconnect_events =
     [Done Ok, Done Ok, Done Ok, Done Ok, Done Ok, Done Ok,
      Done (Raise AioamqpException),
      Subscribe ''brewblox'' ''sensor.*'' ''topic'' None,
      Done Ok, Done Ok,
      Done Ok, Done Ok, Done Ok, Done Ok, Done Ok]"

definition reconnect_state :: "nat listener" where
  "reconnect_state = run (started True example_pre) reconnect_events"

text \<open>
  The same listener in the outage, after the second subscription arrived and the task
  closed the broken connection (\<open>outage_state\<close>: about to connect, one active and one
  pending subscription), and after it reconnected and replayed (\<open>idle_state\<close>: waiting
  on the queue).
\<close>

definition outage_events :: "nat event list" where
  "outage_events =
     [Done Ok, Done Ok, Done Ok, Done Ok, Done Ok, Done Ok,
      Done (Raise AioamqpException),
      Subscribe ''brewblox'' ''sensor.*'' ''topic'' None,
      Done Ok, Done Ok]"

definition outage_state :: "nat listener" where
  "outage_state = run (started True example_pre) outage_events"

definition idle_state :: "nat listener" where
  "idle_state = run outage_state [Done Ok, Done Ok, Done Ok, Done Ok]"




section \<open>Properties of the relay\<close>

text \<open>
  Claim C4. \<^verbatim>\<open>_relay\<close> never propagates an error: whatever it lets through is not an
  \<^verbatim>\<open>Exception\<close>; and when the decoder and the current callback raise nothing but
  exceptions of class \<^verbatim>\<open>Exception\<close>, the relay returns normally, having logged one line
  when the body did not parse (the callback is then not called) or when the callback
  raised, and nothing otherwise.
\<close>

theorem relay_never_propagates:
  "(relay sub loads rkey body log = Inl e \<longrightarrow> \<not> is_Exception e) \<and>
   ((\<forall>x. loads body = Inl x \<longrightarrow> is_Exception x) \<and>
    (\<forall>m x. on_message sub rkey m = Inl x \<longrightarrow> is_Exception x) \<longrightarrow>
      relay sub loads rkey body log =
        Inr (case loads body of
               Inl x \<Rightarrow> log @ [''Exception relaying message'']
             | Inr m \<Rightarrow>
                 (case on_message sub rkey m of
                    Inl x \<Rightarrow> log @ [''Exception relaying message'']
                  | Inr u \<Rightarrow> log)))"
  by (auto simp: relay_def split: sum.splits)

theorem relay_never_propagates_witness:
  "relay raising_subscription example_loads ''controller.value'' ''0'' [] =
     Inr [''Exception relaying message''] \<and>
   relay raising_subscription example_loads ''controller.value'' ''{'' [] =
     Inr [''Exception relaying message''] \<and>
   relay raising_subscription example_loads ''controller.value'' ''1'' [] = Inr []"
  using relay_never_propagates
    [of raising_subscription example_loads "''controller.value''" "''0''" "[]"]
  by (simp add: relay_def raising_subscription_def example_loads_def)

section \<open>Properties of the publisher\<close>

lemma attempts_await:
  "c \<noteq> CEnsureChannel \<Longrightarrow> await c b = (out, b') \<Longrightarrow>
   ensure_attempts (calls b') = ensure_attempts (calls b)"
  by (auto simp: await_def ensure_attempts_def split: list.splits)

lemma attempts_close:
  "close_session p b = (p', b') \<Longrightarrow> ensure_attempts (calls b') = ensure_attempts (calls b)"
  by (auto simp: close_session_def Let_def ensure_attempts_def dest!: attempts_await[rotated]
      split: option.splits prod.splits outcome.splits)

lemma attempts_ensure_open:
  "ensure_open_part p b = (r, p', b') \<Longrightarrow> ensure_attempts (calls b') = ensure_attempts (calls b)"
  by (auto simp: ensure_open_part_def dest!: attempts_await[rotated] attempts_close
      split: option.splits prod.splits outcome.splits if_splits)

lemma attempts_ensure_channel:
  "ensure_channel p b = (r, p', b') \<Longrightarrow>
   ensure_attempts (calls b') = Suc (ensure_attempts (calls b))"
  by (auto simp: ensure_channel_def Let_def ensure_attempts_def
      dest!: attempts_await[rotated] attempts_ensure_open
      split: option.splits prod.splits outcome.splits if_splits)

lemma attempts_send:
  "send dumps p b ex rk m = (r, p', b') \<Longrightarrow> ensure_attempts (calls b') = ensure_attempts (calls b)"
  by (auto simp: send_def ensure_attempts_def dest!: attempts_await[rotated]
      split: sum.splits option.splits prod.splits outcome.splits if_splits)

text \<open>
  Claim C3. For every publisher state, broker behaviour and message: when the first
  \<^verbatim>\<open>_ensure_channel\<close> returns, \<^verbatim>\<open>publish\<close> goes on to serialise and send, having
  entered \<^verbatim>\<open>_ensure_channel\<close> once. When the first raises (whatever the exception),
  \<^verbatim>\<open>_ensure_channel\<close> is entered exactly once more, from the state the first attempt
  left: if the second attempt raises, that exception is the result of \<^verbatim>\<open>publish\<close>;
  if it returns, \<^verbatim>\<open>publish\<close> goes on to serialise and send. There is never a third
  attempt.
\<close>

theorem publish_retries_once:
  "(case ensure_channel p b of
      (Inr u, p1, b1) \<Rightarrow>
        publish dumps p b ex rk m = send dumps p1 b1 ex rk m \<and>
        ensure_attempts (calls (snd (snd (publish dumps p b ex rk m)))) =
          ensure_attempts (calls b) + 1
    | (Inl e, p1, b1) \<Rightarrow>
        ensure_attempts (calls (snd (snd (publish dumps p b ex rk m)))) =
          ensure_attempts (calls b) + 2 \<and>
        (case ensure_channel p1 b1 of
           (Inl e2, p2, b2) \<Rightarrow> publish dumps p b ex rk m = (Inl e2, p2, b2)
         | (Inr u, p2, b2) \<Rightarrow> publish dumps p b ex rk m = send dumps p2 b2 ex rk m))"
proof (cases "ensure_channel p b")
  case first: (fields r p1 b1)
  have a1: "ensure_attempts (calls b1) = Suc (ensure_attempts (calls b))"
    using first by (rule attempts_ensure_channel)
  show ?thesis
  proof (cases r)
    case (Inr u)
    obtain r' p' b' where s: "send dumps p1 b1 ex rk m = (r', p', b')"
      by (cases "send dumps p1 b1 ex rk m")
    have "ensure_attempts (calls b') = ensure_attempts (calls b1)"
      using s by (rule attempts_send)
    then show ?thesis
      using first Inr s a1 by (simp add: publish_def)
  next
    case (Inl e)
    obtain r2 p2 b2 where second: "ensure_channel p1 b1 = (r2, p2, b2)"
      by (cases "ensure_channel p1 b1")
    have a2: "ensure_attempts (calls b2) = Suc (ensure_attempts (calls b1))"
      using second by (rule attempts_ensure_channel)
    show ?thesis
    proof (cases r2)
      case (Inl e2)
      then show ?thesis
        using first \<open>r = Inl e\<close> second a1 a2 by (simp add: publish_def)
    next
      case (Inr u)
      obtain r' p' b' where s: "send dumps p2 b2 ex rk m = (r', p', b')"
        by (cases "send dumps p2 b2 ex rk m")
      have "ensure_attempts (calls b') = ensure_attempts (calls b2)"
        using s by (rule attempts_send)
      then show ?thesis
        using first \<open>r = Inl e\<close> second Inr s a1 a2 by (simp add: publish_def)
    qed
  qed
qed

text \<open>
  Claim C5. The claim fails on the code when \<^verbatim>\<open>protocol.channel()\<close> raises: a fresh
  publisher whose first connection is established but whose channel cannot be opened
  keeps that connection in \<^verbatim>\<open>_transport\<close> and \<^verbatim>\<open>_protocol\<close> without closing it; the
  retry finds \<^verbatim>\<open>connected\<close> false, connects again and overwrites both attributes.
  After the call two connections are open (\<open>live = [0, 1]\<close>), and no
  \<^verbatim>\<open>protocol.close()\<close> or \<^verbatim>\<open>transport.close()\<close> was ever called.
\<close>

theorem publisher_leaks_connection:
  "publish Inr reset (fresh_broker [Ok, Raise AioamqpException, Ok, Ok, Ok])
     ''brewblox'' ''controller.value'' ''{}'' =
   (Inr (), \<lparr>transport = Some 1, protocol = Some 1, channel = Some 1\<rparr>,
    \<lparr>script = [], live = [0, 1], next_conn = 2,
     calls = [CEnsureChannel, CConnect, CChannel, CEnsureChannel, CConnect, CChannel,
              CEnsureOpen, CExchangeDeclare, CBasicPublish],
     sent = [(''brewblox'', ''controller.value'', ''{}'')]\<rparr>)"
  by (simp add: publish_def ensure_channel_def ensure_open_part_def await_def
      connected_def reset_def send_def fresh_broker_def Let_def)

section \<open>Properties of the JSON round trip\<close>















section \<open>Properties of the log handler\<close>

lemma emit_cases:
  "emit h loop_accepts r =
     (case h_queue h of
        None \<Rightarrow> (None, h)
      | Some q \<Rightarrow>
          if full q then (None, h)
          else if getters q = 0 \<or> loop_accepts then
            (None, h\<lparr>h_queue := Some (snd (put_nowait q loop_accepts r)),
                     queued := queued h @ [r]\<rparr>)
          else
            (Some RuntimeError,
             h\<lparr>h_queue := Some (snd (put_nowait q loop_accepts r)), queued := queued h @ [r]\<rparr>))"
  by (simp add: emit_def emit_try_def put_nowait_def split: option.splits)

text \<open>
  Claim C9, as stated, fails: after startup the drain task waits in \<^verbatim>\<open>get()\<close> on the
  empty queue; an \<^verbatim>\<open>emit\<close> whose wake-up of that task the event loop refuses raises
  \<^verbatim>\<open>RuntimeError\<close> to the caller (the record is in the queue by then).
\<close>

theorem emit_raises_counterexample:
  "emit (handler_startup init_handler) False (1::nat) =
     (Some RuntimeError,
      \<lparr>h_queue = Some \<lparr>items = [1], maxsize = 0, getters = 0\<rparr>, h_task = HGet,
       h_record = None, published = [], queued = [1]\<rparr>)"
  by (simp add: emit_def emit_try_def put_nowait_def full_def handler_startup_def init_handler_def
      loop_top_def add_getter_def)

text \<open>
  Claim C9, amended. \<^verbatim>\<open>emit\<close> awaits nothing (it takes no outcome of an awaited
  operation). Without a queue (before startup, after shutdown) and with a full queue it
  raises nothing and leaves the handler unchanged: the record is dropped and the queue
  is as it was. Otherwise the record is appended to the queue and nothing else in the
  queue changes but the waiting getter being woken. The only exception \<^verbatim>\<open>emit\<close> ever
  raises is the \<^verbatim>\<open>RuntimeError\<close> of the event loop, and it raises it exactly when the
  queue is not full, a getter is waiting and the loop refuses its wake-up; the record is
  then in the queue all the same.
\<close>

theorem emit_drops_or_enqueues:
  "emit h loop_accepts r =
     (case h_queue h of
        None \<Rightarrow> (None, h)
      | Some q \<Rightarrow>
          if full q then (None, h)
          else
            (if getters q = 0 \<or> loop_accepts then None else Some RuntimeError,
             h\<lparr>h_queue := Some (q\<lparr>items := items q @ [r], getters := getters q - 1\<rparr>),
               queued := queued h @ [r]\<rparr>))"
  by (simp add: emit_def emit_try_def put_nowait_def split: option.splits)

theorem emit_drops_or_enqueues_witness:
  "emit init_handler True (1::nat) = (None, init_handler) \<and>
   emit (handler_startup init_handler) True (1::nat) =
     (None,
      \<lparr>h_queue = Some \<lparr>items = [1], maxsize = 0, getters = 0\<rparr>, h_task = HGet,
       h_record = None, published = [], queued = [1]\<rparr>) \<and>
   emit \<lparr>h_queue = Some \<lparr>items = [1], maxsize = 1, getters = 0\<rparr>, h_task = HPublish,
         h_record = Some 0, published = [], queued = [0, 1]\<rparr> True (2::nat) =
     (None,
      \<lparr>h_queue = Some \<lparr>items = [1], maxsize = 1, getters = 0\<rparr>, h_task = HPublish,
       h_record = Some 0, published = [], queued = [0, 1]\<rparr>)"
  using emit_drops_or_enqueues [of init_handler True "1::nat"]
    emit_drops_or_enqueues [of "handler_startup init_handler" True "1::nat"]
    emit_drops_or_enqueues
      [of "\<lparr>h_queue = Some \<lparr>items = [1], maxsize = 1, getters = 0\<rparr>, h_task = HPublish,
            h_record = Some 0, published = [], queued = [0, 1]\<rparr>" True "2::nat"]
  by (simp add: full_def handler_startup_def init_handler_def loop_top_def add_getter_def)

lemma hinv_emit: "hinv h \<Longrightarrow> hinv (snd (emit h loop_accepts r))"
  by (auto simp: hinv_def emit_cases put_nowait_def in_hand_def waiting_def
      split: option.splits if_splits)

lemma loop_top_fields [simp]:
  "published (loop_top h) = published h" "in_hand (loop_top h) = in_hand h"
  "waiting (loop_top h) = waiting h" "queued (loop_top h) = queued h"
  "h_record (loop_top h) = h_record h"
  by (simp_all add: loop_top_def in_hand_def waiting_def add_getter_def split: option.splits)

lemma loop_top_task: "h_task (loop_top h) = HGet \<Longrightarrow> h_record h = None"
  by (auto simp: loop_top_def split: option.splits)

lemma handler_except_fields [simp]:
  "published (handler_except e h) = published h" "in_hand (handler_except e h) = in_hand h"
  "waiting (handler_except e h) = waiting h" "queued (handler_except e h) = queued h"
  "h_record (handler_except e h) = h_record h" "h_queue (handler_except e h) = h_queue h"
  "h_task (handler_except e h) \<noteq> HGet"
  by (simp_all add: handler_except_def in_hand_def waiting_def)

lemma waiting_remove_getter [simp]:
  "waiting (h\<lparr>h_queue := map_option remove_getter (h_queue h)\<rparr>) = waiting h"
  by (simp add: waiting_def remove_getter_def split: option.splits)

lemma hinv_loop_top:
  "published h @ in_hand h @ waiting h = queued h \<Longrightarrow> hinv (loop_top h)"
  by (auto simp: hinv_def dest: loop_top_task)

lemma hinv_run_step: "hinv h \<Longrightarrow> hinv (run_step out h)"
proof (cases "h_task h")
  case HNoTask
  then show "hinv h \<Longrightarrow> hinv (run_step out h)"
    by (simp add: run_step_def)
next
  case HGet
  then show "hinv h \<Longrightarrow> hinv (run_step out h)"
    by (cases out)
       (auto simp: run_step_def hinv_def in_hand_def waiting_def remove_getter_def
          handler_except_def split: option.splits list.splits)
next
  case HPublish
  show "hinv h \<Longrightarrow> hinv (run_step out h)"
  proof (cases out)
    case Ok
    assume inv: "hinv h"
    show ?thesis
    proof (cases "h_record h")
      case None
      then show ?thesis
        using inv HPublish Ok by (simp add: run_step_def hinv_def in_hand_def waiting_def)
    next
      case (Some r)
      let ?h1 = "h\<lparr>published := published h @ [r], h_record := None\<rparr>"
      have "published ?h1 @ in_hand ?h1 @ waiting ?h1 = queued ?h1"
        using inv Some by (simp add: hinv_def in_hand_def waiting_def)
      then have "hinv (loop_top ?h1)"
        by (rule hinv_loop_top)
      then show ?thesis
        using HPublish Ok Some by (simp add: run_step_def)
    qed
  next
    case (Raise e)
    assume "hinv h"
    then show ?thesis
      using HPublish Raise by (simp add: run_step_def hinv_def)
  qed
next
  case HSleep
  show "hinv h \<Longrightarrow> hinv (run_step out h)"
  proof (cases out)
    case Ok
    assume "hinv h"
    then have "hinv (loop_top h)"
      by (intro hinv_loop_top) (simp add: hinv_def)
    then show ?thesis
      using HSleep Ok by (simp add: run_step_def)
  next
    case (Raise e)
    assume "hinv h"
    then show ?thesis
      using HSleep Raise by (simp add: run_step_def hinv_def in_hand_def waiting_def)
  qed
qed

lemma hinv_hstep: "hinv h \<Longrightarrow> hinv (hstep h ev)"
  by (cases ev) (simp_all add: hinv_run_step hinv_emit)

lemma hinv_hrun: "hinv h \<Longrightarrow> hinv (hrun h evs)"
  unfolding hrun_def
  by (induction evs arbitrary: h) (simp_all add: hinv_hstep)

lemma hinv_start: "hinv (handler_startup init_handler)"
  by (simp add: hinv_def handler_startup_def init_handler_def loop_top_def in_hand_def
      waiting_def add_getter_def)

lemma example_handler_eq:
  "example_handler =
     \<lparr>h_queue = Some \<lparr>items = [2], maxsize = 0, getters = 0\<rparr>, h_task = HPublish,
      h_record = Some 1, published = [], queued = [1, 2]\<rparr>"
  by (simp add: example_handler_def hrun_def handler_startup_def init_handler_def loop_top_def
      emit_def emit_try_def put_nowait_def full_def run_step_def add_getter_def)

text \<open>
  Claim C8. In every state \<open>h\<close> the handler reaches after startup, through any sequence
  of \<^verbatim>\<open>emit\<close> calls and task steps: (1) the published records, the record in the
  local variable of the task and the queue are together exactly the records that entered
  the queue, in their order, so the task publishes in the original order and skips no
  record (a record held by a task that was cancelled stays unpublished); (2) when
  publishing the record in hand fails with
  an exception other than cancellation, nothing changes but the task going to sleep, and
  after the sleep the task publishes the same record again without touching the queue;
  (3) the record in hand is given up only by a publish that returned, which appends it
  to the published records.
\<close>

theorem failed_record_is_retained:
  "(let h = hrun (handler_startup init_handler) evs
    in published h @ in_hand h @ waiting h = queued h \<and>
       (h_task h = HPublish \<and> h_record h = Some r \<and> e \<noteq> CancelledError \<longrightarrow>
          run_step (Raise e) h = h\<lparr>h_task := HSleep\<rparr> \<and>
          run_step Ok (run_step (Raise e) h) = h\<lparr>h_task := HPublish\<rparr>) \<and>
       (h_record h = Some r \<and> h_record (hstep h ev) \<noteq> Some r \<longrightarrow>
          ev = HDone Ok \<and> h_task h = HPublish \<and> h_record (hstep h ev) = None \<and>
          published (hstep h ev) = published h @ [r]))"
proof -
  define h where "h = hrun (handler_startup init_handler) evs"
  have inv: "hinv h"
    unfolding h_def by (rule hinv_hrun[OF hinv_start])
  have 1: "published h @ in_hand h @ waiting h = queued h"
    using inv by (simp add: hinv_def)
  have 2: "run_step (Raise e) h = h\<lparr>h_task := HSleep\<rparr> \<and>
          run_step Ok (run_step (Raise e) h) = h\<lparr>h_task := HPublish\<rparr>"
    if a: "h_task h = HPublish \<and> h_record h = Some r \<and> e \<noteq> CancelledError"
  proof -
    have "run_step (Raise e) h = h\<lparr>h_task := HSleep\<rparr>"
      using a by (simp add: run_step_def handler_except_def)
    then show ?thesis
      using a by (simp add: run_step_def loop_top_def)
  qed
  have 3: "ev = HDone Ok \<and> h_task h = HPublish \<and> h_record (hstep h ev) = None \<and>
          published (hstep h ev) = published h @ [r]"
    if a: "h_record h = Some r \<and> h_record (hstep h ev) \<noteq> Some r"
  proof (cases ev)
    case (Emit x loop_accepts)
    then show ?thesis using a
      by (auto simp: emit_cases split: option.splits if_splits)
  next
    case (HDone out)
    have "h_task h \<noteq> HGet"
      using inv a by (auto simp: hinv_def)
    then show ?thesis using a HDone
      by (cases "h_task h"; cases out)
         (auto simp: run_step_def split: option.splits list.splits)
  qed
  show ?thesis
    using 1 2 3 unfolding h_def[symmetric] Let_def by blast
qed

theorem failed_record_is_retained_witness:
  "run_step (Raise OtherError) example_handler = example_handler\<lparr>h_task := HSleep\<rparr> \<and>
   run_step Ok (run_step (Raise OtherError) example_handler) = example_handler \<and>
   published (hstep example_handler (HDone Ok)) = [1] \<and>
   h_record (hstep example_handler (HDone Ok)) = None"
  using failed_record_is_retained
    [of "[Emit 1 True, Emit 2 True, HDone Ok]" "1::nat" OtherError "HDone Ok"]
  unfolding example_handler_def[symmetric] Let_def
  by (simp add: example_handler_eq run_step_def loop_top_def)

section \<open>Properties of the listener\<close>

subsection \<open>What the helper functions leave unchanged\<close>

lemma lazy_listen_frame [simp]:
  "pending (lazy_listen s) = pending s"
  "pending_pre_async (lazy_listen s) = pending_pre_async s"
  "subscriptions (lazy_listen s) = subscriptions s"
  "next_sid (lazy_listen s) = next_sid s"
  "accepted (lazy_listen s) = accepted s"
  "enqueued (lazy_listen s) = enqueued s"
  "trace (lazy_listen s) = trace s"
  "flight (task (lazy_listen s)) = flight (task s)"
  by (simp_all add: lazy_listen_def)

lemma after_close_frame [simp]:
  "pending (after_close k s) = pending s"
  "pending_pre_async (after_close k s) = pending_pre_async s"
  "subscriptions (after_close k s) = subscriptions s"
  "next_sid (after_close k s) = next_sid s"
  "accepted (after_close k s) = accepted s"
  "enqueued (after_close k s) = enqueued s"
  "trace (after_close k s) = trace s"
  "flight (task (after_close k s)) = []"
  by (simp_all add: after_close_def)

lemma finally_block_frame [simp]:
  "pending (finally_block k s) = pending s"
  "pending_pre_async (finally_block k s) = pending_pre_async s"
  "subscriptions (finally_block k s) = subscriptions s"
  "next_sid (finally_block k s) = next_sid s"
  "accepted (finally_block k s) = accepted s"
  "enqueued (finally_block k s) = enqueued s"
  "trace (finally_block k s) = trace s"
  "flight (task (finally_block k s)) = []"
  by (simp_all add: finally_block_def)

lemma on_exception_frame [simp]:
  "pending (on_exception e s) = pending s"
  "pending_pre_async (on_exception e s) = pending_pre_async s"
  "subscriptions (on_exception e s) = subscriptions s"
  "next_sid (on_exception e s) = next_sid s"
  "accepted (on_exception e s) = accepted s"
  "enqueued (on_exception e s) = enqueued s"
  "trace (on_exception e s) = trace s"
  "flight (task (on_exception e s)) = []"
  by (simp_all add: on_exception_def)

lemma replay_from_frame [simp]:
  "pending (replay_from i s) = pending s"
  "pending_pre_async (replay_from i s) = pending_pre_async s"
  "subscriptions (replay_from i s) = subscriptions s"
  "next_sid (replay_from i s) = next_sid s"
  "accepted (replay_from i s) = accepted s"
  "enqueued (replay_from i s) = enqueued s"
  "trace (replay_from i s) = trace s"
  "flight (task (replay_from i s)) = []"
  by (simp_all add: replay_from_def)

lemma put_back_frame [simp]:
  "pending (put_back sub e s) = map_option (\<lambda>q. q @ [sub]) (pending s)"
  "pending_pre_async (put_back sub e s) = pending_pre_async s"
  "subscriptions (put_back sub e s) = subscriptions s"
  "next_sid (put_back sub e s) = next_sid s"
  "accepted (put_back sub e s) = accepted s"
  "enqueued (put_back sub e s) = (if pending s = None then enqueued s else enqueued s @ [sub])"
  "trace (put_back sub e s) = trace s"
  "flight (task (put_back sub e s)) = []"
  by (simp_all add: put_back_def split: option.splits)

lemma dequeued_simps [simp]:
  "dequeued [] = []" "dequeued (tr @ tr') = dequeued tr @ dequeued tr'"
  "dequeued (a # tr) = dequeue1 a @ dequeued tr"
  by (simp_all add: dequeued_def)

lemma declared_simps [simp]:
  "declared [] = []" "declared (tr @ tr') = declared tr @ declared tr'"
  "declared (a # tr) = declare1 a @ declared tr"
  by (simp_all add: declared_def)

lemma sid_new_subscription [simp]: "sid (new_subscription s ex rt et cb) = next_sid s"
  by (simp add: new_subscription_def set_on_message_def)

subsection \<open>Started, placement and queue order are preserved\<close>

lemma is_started_subscribe: "is_started s \<Longrightarrow> is_started (subscribe s ex rt et cb)"
  by (auto simp: is_started_def subscribe_def Let_def)

lemma is_started_listen_step: "is_started s \<Longrightarrow> is_started (listen_step out s)"
  unfolding listen_step_def is_started_def
  by (cases "task s"; cases out) (auto split: list.splits)

lemma placed_subscribe: "placed s \<Longrightarrow> placed (subscribe s ex rt et cb)"
  unfolding subscribe_def Let_def placed_def held_def pending_all_def queue_of_def in_flight_def
  by (cases "pending s"; cases "pending_pre_async s") auto

lemma held_listen_step: "is_started s \<Longrightarrow> mset (held (listen_step out s)) = mset (held s)"
  unfolding listen_step_def held_def pending_all_def queue_of_def in_flight_def is_started_def
  by (cases "task s"; cases out) (auto split: list.splits)

lemma ghost_listen_step [simp]:
  "accepted (listen_step out s) = accepted s" "next_sid (listen_step out s) = next_sid s"
  unfolding listen_step_def
  by (cases "task s"; cases out; simp split: option.splits list.splits)+

lemma placed_listen_step: "is_started s \<Longrightarrow> placed s \<Longrightarrow> placed (listen_step out s)"
  by (simp add: placed_def held_listen_step)

lemma fifo_subscribe: "fifo s \<Longrightarrow> fifo (subscribe s ex rt et cb)"
  unfolding subscribe_def Let_def fifo_def queue_of_def
  by (cases "pending s"; cases "pending_pre_async s") auto

lemma fifo_listen_step: "is_started s \<Longrightarrow> fifo s \<Longrightarrow> fifo (listen_step out s)"
  unfolding listen_step_def fifo_def queue_of_def is_started_def
  by (cases "task s"; cases out) (auto split: list.splits)

subsection \<open>Properties of traces, one action at a time\<close>

lemma snoc_eq_append_Cons:
  "tr @ [x] = a @ c # r \<longleftrightarrow> (r = [] \<and> tr = a \<and> x = c) \<or> (\<exists>r'. r = r' @ [x] \<and> tr = a @ c # r')"
  by (cases r rule: rev_cases) auto

lemma session_snoc: "session (tr @ [x]) = session_step (session tr) x"
  by (simp add: session_def)

lemma session_decomp:
  "\<forall>x \<in> set seg. \<not> is_connect x \<Longrightarrow> session (a @ TConnect subs # seg) = Some (subs, seg)"
proof (induction seg rule: rev_induct)
  case Nil
  have "session (a @ [TConnect subs]) = Some (subs, [])"
    by (simp only: session_snoc session_step.simps)
  then show ?case by simp
next
  case (snoc x xs)
  then have ih: "session (a @ TConnect subs # xs) = Some (subs, xs)" and nx: "\<not> is_connect x"
    by simp_all
  have "session ((a @ TConnect subs # xs) @ [x]) = session_step (Some (subs, xs)) x"
    by (simp only: session_snoc ih)
  with nx show ?case
    by (cases x) simp_all
qed

lemma replay_first_Nil [simp]: "replay_first []"
  by (simp add: replay_first_def)

lemma replay_first_snoc_other:
  assumes "replay_first tr" and "dequeue1 x = []"
  shows "replay_first (tr @ [x])"
  unfolding replay_first_def
proof (intro allI impI)
  fix before subs seg p after
  assume h: "tr @ [x] = before @ TConnect subs # seg @ TDequeue p # after \<and>
             (\<forall>a \<in> set seg. \<not> is_connect a)"
  then have "tr @ [x] = (before @ TConnect subs # seg) @ TDequeue p # after"
    by simp
  then have "(after = [] \<and> x = TDequeue p) \<or>
             (\<exists>r'. after = r' @ [x] \<and> tr = (before @ TConnect subs # seg) @ TDequeue p # r')"
    unfolding snoc_eq_append_Cons by blast
  then obtain r' where "tr = before @ TConnect subs # seg @ TDequeue p # r'"
    using assms(2) by auto
  with assms(1) h show "prefix (map declared_ok subs) seg"
    unfolding replay_first_def by blast
qed

lemma replay_first_snoc_dequeue:
  assumes "replay_first tr" and "session tr = Some (subs0, seg0)"
    and "prefix (map declared_ok subs0) seg0"
  shows "replay_first (tr @ [TDequeue p0])"
  unfolding replay_first_def
proof (intro allI impI)
  fix before subs seg p after
  assume h: "tr @ [TDequeue p0] = before @ TConnect subs # seg @ TDequeue p # after \<and>
             (\<forall>a \<in> set seg. \<not> is_connect a)"
  then have "tr @ [TDequeue p0] = (before @ TConnect subs # seg) @ TDequeue p # after"
    by simp
  then consider "tr = before @ TConnect subs # seg"
    | r' where "tr = (before @ TConnect subs # seg) @ TDequeue p # r'"
    unfolding snoc_eq_append_Cons by blast
  then show "prefix (map declared_ok subs) seg"
  proof cases
    case 1
    then have "session tr = Some (subs, seg)"
      using h by (simp add: session_decomp)
    with assms(2,3) show ?thesis by simp
  next
    case 2
    with assms(1) h show ?thesis
      unfolding replay_first_def by (metis append.assoc append_Cons)
  qed
qed

lemma snapshots_grow_Nil [simp]: "snapshots_grow []"
  by (simp add: snapshots_grow_def)

lemma snapshots_grow_snoc_other:
  assumes "snapshots_grow tr" and "\<not> is_connect x"
  shows "snapshots_grow (tr @ [x])"
  unfolding snapshots_grow_def
proof (intro allI impI)
  fix a s1 b s2 c
  assume h: "tr @ [x] = a @ TConnect s1 # b @ TConnect s2 # c"
  then have "tr @ [x] = (a @ TConnect s1 # b) @ TConnect s2 # c"
    by simp
  then have "(c = [] \<and> x = TConnect s2) \<or>
             (\<exists>r'. c = r' @ [x] \<and> tr = (a @ TConnect s1 # b) @ TConnect s2 # r')"
    unfolding snoc_eq_append_Cons by blast
  then obtain r' where "tr = a @ TConnect s1 # b @ TConnect s2 # r'"
    using assms(2) by auto
  with assms(1) show "prefix s1 s2"
    unfolding snapshots_grow_def by blast
qed

lemma snapshots_grow_snoc_connect:
  assumes "snapshots_grow tr" and "\<forall>a s1 b. tr = a @ TConnect s1 # b \<longrightarrow> prefix s1 s2'"
  shows "snapshots_grow (tr @ [TConnect s2'])"
  unfolding snapshots_grow_def
proof (intro allI impI)
  fix a s1 b s2 c
  assume h: "tr @ [TConnect s2'] = a @ TConnect s1 # b @ TConnect s2 # c"
  then have "tr @ [TConnect s2'] = (a @ TConnect s1 # b) @ TConnect s2 # c"
    by simp
  then consider "tr = a @ TConnect s1 # b" "s2 = s2'"
    | r' where "tr = (a @ TConnect s1 # b) @ TConnect s2 # r'"
    unfolding snoc_eq_append_Cons by blast
  then show "prefix s1 s2"
  proof cases
    case 1
    with assms(2) show ?thesis by blast
  next
    case 2
    with assms(1) show ?thesis
      unfolding snapshots_grow_def by (metis append.assoc append_Cons)
  qed
qed

lemma replay_ordered_Nil [simp]: "replay_ordered []"
  by (simp add: replay_ordered_def)

lemma replay_ordered_snoc:
  assumes "replay_ordered tr"
    and "\<forall>subs seg. session (tr @ [x]) = Some (subs, seg) \<longrightarrow>
           prefix (declared seg) subs \<or> prefix subs (declared seg)"
  shows "replay_ordered (tr @ [x])"
  unfolding replay_ordered_def
proof (intro allI impI)
  fix a subs seg rest
  assume h: "tr @ [x] = a @ TConnect subs # seg @ rest \<and> (\<forall>x \<in> set seg. \<not> is_connect x)"
  show "prefix (declared seg) subs \<or> prefix subs (declared seg)"
  proof (cases rest rule: rev_cases)
    case Nil
    with h have "session (tr @ [x]) = Some (subs, seg)"
      by (simp add: session_decomp)
    with assms(2) show ?thesis by blast
  next
    case (snoc r' y)
    with h have "tr = a @ TConnect subs # seg @ r'"
      by (metis append_assoc append_Cons butlast_snoc)
    with assms(1) h show ?thesis
      unfolding replay_ordered_def by blast
  qed
qed

subsection \<open>The session invariant is preserved\<close>

lemma declared_map_ok [simp]: "declared (map declared_ok xs) = xs"
  by (induction xs) simp_all

lemma prefix_declared: "prefix xs ys \<Longrightarrow> prefix (declared xs) (declared ys)"
  by (auto simp: prefix_def)

lemma pc_ok_quiet [simp]:
  "pc_ok (task (after_close k s)) t" "pc_ok (task (finally_block k s)) t"
  "pc_ok (task (on_exception e s)) t" "pc_ok (task (put_back x e s)) t"
  by (simp_all add: after_close_def finally_block_def on_exception_def put_back_def
      split: option.splits)

lemma sess_subscribe: "sess s \<Longrightarrow> sess (subscribe s ex rt et cb)"
proof -
  assume a: "sess s"
  let ?s' = "subscribe s ex rt et cb"
  have t: "trace ?s' = trace s" and u: "subscriptions ?s' = subscriptions s"
    by (simp_all add: subscribe_def Let_def split: option.splits)
  have c: "loop_ok ?s' = loop_ok s" "\<And>i. replay_ok i ?s' = replay_ok i s"
    "traces_ok ?s' = traces_ok s"
    by (simp_all add: loop_ok_def replay_ok_def traces_ok_def snapshots_active_def t u)
  have "pc_ok (task s) ?s'"
    using a c by (cases "task s") (simp_all add: sess_def)
  then have "pc_ok (task ?s') ?s'"
    by (auto simp: subscribe_def Let_def lazy_listen_def split: option.splits)
  with a c show ?thesis
    by (simp add: sess_def)
qed

lemma snapshots_active_snoc:
  assumes "snapshots_active s" and "trace s' = trace s @ [x]"
    and "prefix (subscriptions s) (subscriptions s')"
    and "\<And>subs. x = TConnect subs \<Longrightarrow> subs = subscriptions s'"
  shows "snapshots_active s'"
  unfolding snapshots_active_def
proof (intro allI impI)
  fix a subs b
  assume "trace s' = a @ TConnect subs # b"
  then have "trace s @ [x] = a @ TConnect subs # b"
    using assms(2) by simp
  then consider "x = TConnect subs" | r' where "trace s = a @ TConnect subs # r'"
    unfolding snoc_eq_append_Cons by blast
  then show "prefix subs (subscriptions s')"
  proof cases
    case 1
    then show ?thesis using assms(4) by simp
  next
    case 2
    then have "prefix subs (subscriptions s)"
      using assms(1) unfolding snapshots_active_def by blast
    then show ?thesis
      using assms(3) prefix_order.trans by blast
  qed
qed

lemma traces_ok_connect:
  assumes "traces_ok s" and "trace s' = trace s @ [TConnect (subscriptions s)]"
    and "subscriptions s' = subscriptions s"
  shows "traces_ok s'"
proof -
  have sa: "snapshots_active s'"
  proof (rule snapshots_active_snoc[of s s' "TConnect (subscriptions s)"])
    show "snapshots_active s" using assms(1) by (simp add: traces_ok_def)
    show "trace s' = trace s @ [TConnect (subscriptions s)]" by (rule assms(2))
    show "prefix (subscriptions s) (subscriptions s')" using assms(3) by simp
    show "\<And>subs. TConnect (subscriptions s) = TConnect subs \<Longrightarrow> subs = subscriptions s'"
      using assms(3) by simp
  qed
  have "\<forall>a s1 b. trace s = a @ TConnect s1 # b \<longrightarrow> prefix s1 (subscriptions s)"
    using assms(1) by (simp add: traces_ok_def snapshots_active_def)
  then have sg: "snapshots_grow (trace s')"
    using assms by (simp add: traces_ok_def snapshots_grow_snoc_connect)
  have rf: "replay_first (trace s')"
    using assms by (simp add: traces_ok_def replay_first_snoc_other)
  have ro: "replay_ordered (trace s')"
    unfolding assms(2) using assms(1)
    by (intro replay_ordered_snoc) (simp_all add: traces_ok_def session_snoc)
  show ?thesis
    using sa sg rf ro by (simp add: traces_ok_def)
qed

lemma traces_ok_declare:
  assumes "traces_ok s" and "trace s' = trace s @ [TDeclare x ok]"
    and "prefix (subscriptions s) (subscriptions s')"
    and "\<forall>subs seg. session (trace s') = Some (subs, seg) \<longrightarrow>
           prefix (declared seg) subs \<or> prefix subs (declared seg)"
  shows "traces_ok s'"
proof -
  have sa: "snapshots_active s'"
  proof (rule snapshots_active_snoc[of s s' "TDeclare x ok"])
    show "snapshots_active s" using assms(1) by (simp add: traces_ok_def)
    show "trace s' = trace s @ [TDeclare x ok]" by (rule assms(2))
    show "prefix (subscriptions s) (subscriptions s')" using assms(3) by simp
    show "\<And>subs. TDeclare x ok = TConnect subs \<Longrightarrow> subs = subscriptions s'"
      using assms(3) by simp
  qed
  have sg: "snapshots_grow (trace s')"
    using assms by (simp add: traces_ok_def snapshots_grow_snoc_other)
  have rf: "replay_first (trace s')"
    using assms by (simp add: traces_ok_def replay_first_snoc_other)
  have ro: "replay_ordered (trace s')"
    using assms(1,4) unfolding assms(2)
    by (intro replay_ordered_snoc) (simp_all add: traces_ok_def session_snoc)
  show ?thesis
    using sa sg rf ro by (simp add: traces_ok_def)
qed

lemma traces_ok_dequeue:
  assumes "traces_ok s" and "trace s' = trace s @ [TDequeue x]"
    and "subscriptions s' = subscriptions s" and "loop_ok s"
  shows "traces_ok s'"
proof -
  obtain subs seg where c: "session (trace s) = Some (subs, seg)"
    "prefix (map declared_ok subs) seg" "declared seg = subscriptions s"
    using assms(4) unfolding loop_ok_def by blast
  have sa: "snapshots_active s'"
  proof (rule snapshots_active_snoc[of s s' "TDequeue x"])
    show "snapshots_active s" using assms(1) by (simp add: traces_ok_def)
    show "trace s' = trace s @ [TDequeue x]" by (rule assms(2))
    show "prefix (subscriptions s) (subscriptions s')" using assms(3) by simp
    show "\<And>subs. TDequeue x = TConnect subs \<Longrightarrow> subs = subscriptions s'"
      using assms(3) by simp
  qed
  have sg: "snapshots_grow (trace s')"
    using assms by (simp add: traces_ok_def snapshots_grow_snoc_other)
  have rf: "replay_first (trace s')"
    using assms(1) c unfolding assms(2)
    by (intro replay_first_snoc_dequeue[of _ subs seg]) (simp_all add: traces_ok_def)
  have "prefix subs (declared seg)"
    using prefix_declared[OF c(2)] by simp
  then have ro: "replay_ordered (trace s')"
    using assms(1) c(1) unfolding assms(2)
    by (intro replay_ordered_snoc) (auto simp: traces_ok_def session_snoc)
  show ?thesis
    using sa sg rf ro by (simp add: traces_ok_def)
qed

lemma traces_ok_cong:
  "trace s' = trace s \<Longrightarrow> subscriptions s' = subscriptions s \<Longrightarrow> traces_ok s' = traces_ok s"
  by (simp add: traces_ok_def snapshots_active_def)

lemma loop_ok_cong:
  "trace s' = trace s \<Longrightarrow> subscriptions s' = subscriptions s \<Longrightarrow> loop_ok s' = loop_ok s"
  by (simp add: loop_ok_def)

lemma replay_ok_cong:
  "trace s' = trace s \<Longrightarrow> subscriptions s' = subscriptions s \<Longrightarrow> replay_ok i s' = replay_ok i s"
  by (simp add: replay_ok_def)

lemma traces_ok_frame [simp]:
  "traces_ok (after_close k s) = traces_ok s" "traces_ok (finally_block k s) = traces_ok s"
  "traces_ok (on_exception e s) = traces_ok s" "traces_ok (put_back x e s) = traces_ok s"
  "traces_ok (replay_from i s) = traces_ok s"
  "traces_ok (s\<lparr>task := t\<rparr>) = traces_ok s" "traces_ok (s\<lparr>retrying := r\<rparr>) = traces_ok s"
  "traces_ok (s\<lparr>protocol_bound := b\<rparr>) = traces_ok s"
  "traces_ok (s\<lparr>pending := q\<rparr>) = traces_ok s"
  by (rule traces_ok_cong; simp)+

lemma loop_ok_frame [simp]:
  "loop_ok (replay_from i s) = loop_ok s"
  "loop_ok (s\<lparr>task := t\<rparr>) = loop_ok s" "loop_ok (s\<lparr>retrying := r\<rparr>) = loop_ok s"
  "loop_ok (s\<lparr>protocol_bound := b\<rparr>) = loop_ok s"
  "loop_ok (s\<lparr>pending := q\<rparr>) = loop_ok s"
  by (rule loop_ok_cong; simp)+

lemma replay_ok_frame [simp]:
  "replay_ok j (replay_from i s) = replay_ok j s"
  by (rule replay_ok_cong; simp)+

lemma pc_ok_cong:
  "trace s' = trace s \<Longrightarrow> subscriptions s' = subscriptions s \<Longrightarrow> pc_ok t s' = pc_ok t s"
  using loop_ok_cong[of s' s] replay_ok_cong[of s' s] by (cases t) simp_all

lemma sess_same:
  assumes "traces_ok s" and "trace s' = trace s" and "subscriptions s' = subscriptions s"
    and "pc_ok (task s') s"
  shows "sess s'"
  using assms traces_ok_cong[of s' s] pc_ok_cong[of s' s "task s'"] by (simp add: sess_def)

lemma sess_quiet:
  "traces_ok s \<Longrightarrow> sess (after_close k s)" "traces_ok s \<Longrightarrow> sess (finally_block k s)"
  "traces_ok s \<Longrightarrow> sess (on_exception e s)" "traces_ok s \<Longrightarrow> sess (put_back x e s)"
  by (simp_all add: sess_def)

lemma sess_channel_ok:
  assumes "traces_ok s"
  shows "sess (replay_from 0 (s\<lparr>trace := trace s @ [TConnect (subscriptions s)]\<rparr>))"
proof -
  let ?s1 = "s\<lparr>trace := trace s @ [TConnect (subscriptions s)]\<rparr>"
  have t: "traces_ok ?s1"
    using assms by (rule traces_ok_connect) simp_all
  have c1: "session (trace ?s1) = Some (subscriptions ?s1, [])"
    by (simp add: session_snoc)
  have "replay_ok 0 ?s1" if "0 < length (subscriptions ?s1)"
    unfolding replay_ok_def using c1 that by simp
  moreover have "loop_ok ?s1" if "\<not> 0 < length (subscriptions ?s1)"
    unfolding loop_ok_def using c1 that by simp
  ultimately have "pc_ok (task (replay_from 0 ?s1)) ?s1"
    unfolding replay_from_def by (cases "0 < length (subscriptions ?s1)") simp_all
  with t show ?thesis
    by (intro sess_same[of ?s1]) simp_all
qed

lemma sess_replay_ok:
  assumes "traces_ok s" and "replay_ok i s"
  shows "sess (replay_from (Suc i) (s\<lparr>trace := trace s @ [TDeclare (subscriptions s ! i) True]\<rparr>))"
proof -
  let ?subs = "subscriptions s"
  let ?s1 = "s\<lparr>trace := trace s @ [TDeclare (?subs ! i) True]\<rparr>"
  have i: "i < length ?subs"
    and c: "session (trace s) = Some (?subs, map declared_ok (take i ?subs))"
    using assms(2) by (simp_all add: replay_ok_def)
  have c1: "session (trace ?s1) = Some (?subs, map declared_ok (take (Suc i) ?subs))"
    using i c by (simp add: take_Suc_conv_app_nth session_snoc)
  have t: "traces_ok ?s1"
    using assms(1)
  proof (rule traces_ok_declare)
    show "trace ?s1 = trace s @ [TDeclare (?subs ! i) True]" by simp
    show "prefix (subscriptions s) (subscriptions ?s1)" by simp
    show "\<forall>subs seg. session (trace ?s1) = Some (subs, seg) \<longrightarrow>
           prefix (declared seg) subs \<or> prefix subs (declared seg)"
      unfolding c1 by (simp add: take_is_prefix)
  qed
  have "replay_ok (Suc i) ?s1" if "Suc i < length (subscriptions ?s1)"
    unfolding replay_ok_def c1 using that by simp
  moreover have "loop_ok ?s1" if "\<not> Suc i < length (subscriptions ?s1)"
  proof -
    have "take (Suc i) ?subs = ?subs" using that by simp
    then show ?thesis unfolding loop_ok_def c1 by simp
  qed
  ultimately have "pc_ok (task (replay_from (Suc i) ?s1)) ?s1"
    unfolding replay_from_def by (cases "Suc i < length (subscriptions ?s1)") simp_all
  with t show ?thesis
    by (intro sess_same[of ?s1]) simp_all
qed

lemma traces_ok_replay_fail:
  assumes "traces_ok s" and "replay_ok i s"
  shows "traces_ok (s\<lparr>trace := trace s @ [TDeclare (subscriptions s ! i) False]\<rparr>)"
proof -
  let ?subs = "subscriptions s"
  let ?s1 = "s\<lparr>trace := trace s @ [TDeclare (?subs ! i) False]\<rparr>"
  have c: "session (trace s) = Some (?subs, map declared_ok (take i ?subs))"
    using assms(2) by (simp_all add: replay_ok_def)
  show ?thesis
    using assms(1)
  proof (rule traces_ok_declare)
    show "trace ?s1 = trace s @ [TDeclare (?subs ! i) False]" by simp
    show "prefix (subscriptions s) (subscriptions ?s1)" by simp
    show "\<forall>subs seg. session (trace ?s1) = Some (subs, seg) \<longrightarrow>
           prefix (declared seg) subs \<or> prefix subs (declared seg)"
      using c by (simp add: take_is_prefix session_snoc)
  qed
qed

lemma sess_get_ok:
  assumes "traces_ok s" and "loop_ok s"
  shows "sess (s\<lparr>pending := Some q, task := EnsureDecl x, trace := trace s @ [TDequeue x]\<rparr>)"
proof -
  let ?s1 = "s\<lparr>pending := Some q, task := EnsureDecl x, trace := trace s @ [TDequeue x]\<rparr>"
  have t: "traces_ok ?s1"
    using assms(1) by (rule traces_ok_dequeue) (simp_all add: assms(2))
  have "loop_ok ?s1"
    using assms(2) by (auto simp: loop_ok_def session_snoc)
  with t show ?thesis
    by (simp add: sess_def)
qed

lemma sess_declare_ok:
  assumes "traces_ok s" and "loop_ok s"
  shows "sess (s\<lparr>subscriptions := subscriptions s @ [x], task := EnsureIdle,
                 trace := trace s @ [TDeclare x True]\<rparr>)"
proof -
  let ?s1 = "s\<lparr>subscriptions := subscriptions s @ [x], task := EnsureIdle,
                 trace := trace s @ [TDeclare x True]\<rparr>"
  obtain subs seg where c: "session (trace s) = Some (subs, seg)"
    "prefix (map declared_ok subs) seg" "declared seg = subscriptions s"
    using assms(2) unfolding loop_ok_def by blast
  have p: "prefix subs (declared seg)"
    using prefix_declared[OF c(2)] by simp
  have t: "traces_ok ?s1"
    using assms(1)
  proof (rule traces_ok_declare)
    show "trace ?s1 = trace s @ [TDeclare x True]" by simp
    show "prefix (subscriptions s) (subscriptions ?s1)" by simp
    show "\<forall>subs seg. session (trace ?s1) = Some (subs, seg) \<longrightarrow>
           prefix (declared seg) subs \<or> prefix subs (declared seg)"
      using c(1) p by (auto simp: session_snoc)
  qed
  have "loop_ok ?s1"
    using c by (simp add: loop_ok_def session_snoc)
  with t show ?thesis
    by (simp add: sess_def)
qed

lemma traces_ok_declare_fail:
  assumes "traces_ok s" and "loop_ok s"
  shows "traces_ok (s\<lparr>trace := trace s @ [TDeclare x False]\<rparr>)"
proof -
  let ?s1 = "s\<lparr>trace := trace s @ [TDeclare x False]\<rparr>"
  obtain subs seg where c: "session (trace s) = Some (subs, seg)"
    "prefix (map declared_ok subs) seg" "declared seg = subscriptions s"
    using assms(2) unfolding loop_ok_def by blast
  have p: "prefix subs (declared seg)"
    using prefix_declared[OF c(2)] by simp
  show ?thesis
    using assms(1)
  proof (rule traces_ok_declare)
    show "trace ?s1 = trace s @ [TDeclare x False]" by simp
    show "prefix (subscriptions s) (subscriptions ?s1)" by simp
    show "\<forall>subs seg. session (trace ?s1) = Some (subs, seg) \<longrightarrow>
           prefix (declared seg) subs \<or> prefix subs (declared seg)"
      using c(1) p by (auto simp: session_snoc)
  qed
qed

lemma sess_listen_step: "sess s \<Longrightarrow> sess (listen_step out s)"
proof -
  assume a: "sess s"
  then have t: "traces_ok s" and p: "pc_ok (task s) s"
    by (simp_all add: sess_def)
  show ?thesis
  proof (cases "task s")
    case NoTask
    then show ?thesis using a by (simp add: listen_step_def)
  next
    case Connect
    then show ?thesis using t
      by (cases out) (simp_all add: listen_step_def sess_quiet sess_def)
  next
    case Channel
    then show ?thesis using t
      by (cases out) (simp_all add: listen_step_def sess_quiet sess_channel_ok)
  next
    case (Replay i)
    then have r: "replay_ok i s" using p by simp
    then have "i < length (subscriptions s)" by (simp add: replay_ok_def)
    then show ?thesis using t r Replay
      by (cases out)
         (simp_all add: listen_step_def sess_quiet sess_replay_ok traces_ok_replay_fail)
  next
    case EnsureIdle
    then have "loop_ok s" using p by simp
    then show ?thesis using t a EnsureIdle
      by (cases out) (simp_all add: listen_step_def sess_quiet sess_def)
  next
    case Get
    then have l: "loop_ok s" using p by simp
    show ?thesis
    proof (cases out)
      case Ok
      then show ?thesis using t l a Get
        by (simp add: listen_step_def sess_quiet sess_get_ok split: option.splits list.splits)
    next
      case (Raise e)
      then show ?thesis using t l Get
        by (simp add: listen_step_def sess_quiet sess_def)
    qed
  next
    case (EnsureDecl x)
    then have "loop_ok s" using p by simp
    then show ?thesis using t EnsureDecl
      by (cases out) (simp_all add: listen_step_def sess_quiet sess_def)
  next
    case (Declare x)
    then have "loop_ok s" using p by simp
    then show ?thesis using t Declare
      by (cases out)
         (simp_all add: listen_step_def sess_quiet sess_declare_ok traces_ok_declare_fail)
  next
    case Sleep
    then show ?thesis using t
      by (cases out) (simp_all add: listen_step_def sess_quiet)
  next
    case (Close k)
    then show ?thesis using t
      by (simp add: listen_step_def sess_quiet)
  qed
qed

subsection \<open>Every execution satisfies the invariants\<close>

lemma unstarted_init: "unstarted (init_listener loop)"
  by (simp add: unstarted_def init_listener_def)

lemma placed_init: "placed (init_listener loop)"
  by (simp add: placed_def held_def pending_all_def queue_of_def in_flight_def init_listener_def)

lemma unstarted_subscribe: "unstarted s \<Longrightarrow> unstarted (subscribe s ex rt et cb)"
  by (auto simp: unstarted_def subscribe_def Let_def lazy_listen_def)

lemma pre_start:
  "unstarted (foldl subscribe_args (init_listener loop) pre) \<and>
   placed (foldl subscribe_args (init_listener loop) pre)"
proof (induction pre rule: rev_induct)
  case Nil
  show ?case by (simp add: unstarted_init placed_init)
next
  case (snoc a pre)
  then show ?case
    by (cases a) (simp add: unstarted_subscribe placed_subscribe)
qed

lemma linv_startup:
  assumes "unstarted s" and "placed s"
  shows "linv (startup s)"
proof -
  obtain pre where pre: "pending_pre_async s = Some pre"
    using assms(1) by (auto simp: unstarted_def)
  let ?s1 = "s\<lparr>pending := Some pre, pending_pre_async := None, enqueued := enqueued s @ pre\<rparr>"
  have eq: "startup s = lazy_listen ?s1"
    by (simp add: startup_def pre)
  have 1: "is_started (startup s)"
    by (simp add: eq is_started_def)
  have "held (startup s) = held s"
    using assms(1) pre unfolding eq
    by (simp add: held_def pending_all_def queue_of_def in_flight_def unstarted_def)
  then have 2: "placed (startup s)"
    using assms(2) by (simp add: placed_def eq)
  have 3: "fifo (startup s)"
    using assms(1) unfolding eq by (simp add: fifo_def queue_of_def unstarted_def)
  have "traces_ok (startup s)"
    using assms(1) unfolding eq
    by (simp add: traces_ok_def snapshots_active_def unstarted_def)
  moreover have "pc_ok (task (startup s)) (startup s)"
    using assms(1) unfolding eq by (simp add: lazy_listen_def unstarted_def)
  ultimately have 4: "sess (startup s)"
    by (simp add: sess_def)
  show ?thesis
    using 1 2 3 4 by (simp add: linv_def)
qed

lemma linv_step: "linv s \<Longrightarrow> linv (step s ev)"
  by (cases ev)
     (simp_all add: linv_def is_started_subscribe is_started_listen_step placed_subscribe
        placed_listen_step fifo_subscribe fifo_listen_step sess_subscribe sess_listen_step)

lemma linv_run: "linv s \<Longrightarrow> linv (run s evs)"
  unfolding run_def by (induction evs arbitrary: s) (simp_all add: linv_step)

lemma linv_started: "linv (run (started loop pre) evs)"
  unfolding started_def by (intro linv_run linv_startup) (simp_all add: pre_start)

lemma placed_exactly_once:
  assumes "placed s"
  shows "mset (pending_all s @ in_flight s @ subscriptions s) = mset (accepted s) \<and>
         distinct (accepted s)"
  using assms by (simp add: placed_def held_def distinct_map)

subsection \<open>The declaration follows the dequeue\<close>

lemma declared_next_no_dequeue: "dequeue1 y = [] \<Longrightarrow> declared_next y x"
  by (cases y) simp_all

lemma declared_next_connect [simp]: "declared_next y (TConnect subs)"
  by (cases y) simp_all

lemma successively_snoc:
  "successively P (tr @ [x]) \<longleftrightarrow> successively P tr \<and> (tr = [] \<or> P (last tr) x)"
  by (simp add: successively_append_iff)

lemma tail_pc_quiet [simp]:
  "tail_pc (task (after_close k s)) tr" "tail_pc (task (finally_block k s)) tr"
  "tail_pc (task (on_exception e s)) tr" "tail_pc (task (put_back x e s)) tr"
  by (simp_all add: after_close_def finally_block_def on_exception_def put_back_def
      split: option.splits)

lemma tail_pc_replay_from:
  "tr \<noteq> [] \<Longrightarrow> dequeue1 (last tr) = [] \<Longrightarrow> tail_pc (task (replay_from i s)) tr"
  by (simp add: replay_from_def)

lemma tail_ok_subscribe: "tail_ok s \<Longrightarrow> tail_ok (subscribe s ex rt et cb)"
proof -
  assume a: "tail_ok s"
  let ?s' = "subscribe s ex rt et cb"
  have t: "trace ?s' = trace s"
    by (simp add: subscribe_def Let_def split: option.splits)
  have "task ?s' = task s \<or> task ?s' = Connect"
    by (auto simp: subscribe_def Let_def lazy_listen_def split: option.splits)
  then have "tail_pc (task ?s') (trace s)"
    using a by (auto simp: tail_ok_def)
  then show ?thesis
    using a t by (simp add: tail_ok_def)
qed

lemma tail_ok_listen_step: "tail_ok s \<Longrightarrow> tail_ok (listen_step out s)"
proof -
  assume a: "tail_ok s"
  then have su: "successively declared_next (trace s)" and p: "tail_pc (task s) (trace s)"
    by (simp_all add: tail_ok_def)
  show ?thesis
  proof (cases "task s")
    case NoTask
    then show ?thesis using a by (simp add: listen_step_def)
  next
    case Connect
    then show ?thesis using su
      by (cases out) (simp_all add: listen_step_def tail_ok_def)
  next
    case Channel
    then show ?thesis using su
      by (cases out)
         (simp_all add: listen_step_def tail_ok_def successively_snoc tail_pc_replay_from)
  next
    case (Replay i)
    then have "trace s \<noteq> []" "dequeue1 (last (trace s)) = []" using p by simp_all
    then show ?thesis using su Replay
      by (cases out)
         (simp_all add: listen_step_def tail_ok_def successively_snoc tail_pc_replay_from
            declared_next_no_dequeue)
  next
    case EnsureIdle
    then show ?thesis using su p
      by (cases out) (simp_all add: listen_step_def tail_ok_def)
  next
    case Get
    then have l: "trace s \<noteq> []" "dequeue1 (last (trace s)) = []" using p by simp_all
    show ?thesis
    proof (cases out)
      case Ok
      then show ?thesis using su l a Get
        by (simp add: listen_step_def tail_ok_def successively_snoc declared_next_no_dequeue
            split: option.splits list.splits)
    next
      case (Raise e)
      then show ?thesis using su l Get
        by (simp add: listen_step_def tail_ok_def)
    qed
  next
    case (EnsureDecl x)
    then show ?thesis using su p
      by (cases out) (simp_all add: listen_step_def tail_ok_def)
  next
    case (Declare x)
    then have "trace s \<noteq> []" "last (trace s) = TDequeue x" using p by simp_all
    then show ?thesis using su Declare
      by (cases out) (simp_all add: listen_step_def tail_ok_def successively_snoc)
  next
    case Sleep
    then show ?thesis using su
      by (cases out) (simp_all add: listen_step_def tail_ok_def)
  next
    case (Close k)
    then show ?thesis using su
      by (simp add: listen_step_def tail_ok_def)
  qed
qed

lemma tail_ok_startup: "unstarted s \<Longrightarrow> tail_ok (startup s)"
  by (auto simp: unstarted_def startup_def tail_ok_def lazy_listen_def split: option.splits)

lemma tail_ok_step: "tail_ok s \<Longrightarrow> tail_ok (step s ev)"
  by (cases ev) (simp_all add: tail_ok_subscribe tail_ok_listen_step)

lemma tail_ok_run: "tail_ok s \<Longrightarrow> tail_ok (run s evs)"
  unfolding run_def by (induction evs arbitrary: s) (simp_all add: tail_ok_step)

lemma tail_ok_started: "tail_ok (run (started loop pre) evs)"
  unfolding started_def by (intro tail_ok_run tail_ok_startup) (simp add: pre_start)

subsection \<open>Runs in which nothing fails\<close>

lemma run_Nil [simp]: "run s [] = s"
  by (simp add: run_def)

lemma run_Cons: "run s (ev # evs) = run (step s ev) evs"
  by (simp add: run_def)

lemma run_append: "run s (xs @ ys) = run (run s xs) ys"
  by (simp add: run_def)

lemma replay_runs:
  "task s = Replay i \<Longrightarrow> i < length (subscriptions s) \<Longrightarrow> n = length (subscriptions s) - i \<Longrightarrow>
   trace (run s (replicate n (Done Ok))) =
     trace s @ map (\<lambda>x. TDeclare x True) (drop i (subscriptions s)) \<and>
   task (run s (replicate n (Done Ok))) = EnsureIdle \<and>
   subscriptions (run s (replicate n (Done Ok))) = subscriptions s \<and>
   pending (run s (replicate n (Done Ok))) = pending s"
proof (induction n arbitrary: s i)
  case 0
  then show ?case by simp
next
  case (Suc m)
  let ?subs = "subscriptions s"
  let ?s1 = "s\<lparr>trace := trace s @ [TDeclare (?subs ! i) True]\<rparr>"
  have st: "listen_step Ok s = replay_from (Suc i) ?s1"
    using Suc.prems by (simp add: listen_step_def)
  have d: "drop i ?subs = ?subs ! i # drop (Suc i) ?subs"
    using Suc.prems by (simp add: Cons_nth_drop_Suc)
  show ?case
  proof (cases "Suc i < length ?subs")
    case True
    let ?s2 = "replay_from (Suc i) ?s1"
    have "trace (run ?s2 (replicate m (Done Ok))) =
            trace ?s2 @ map (\<lambda>x. TDeclare x True) (drop (Suc i) (subscriptions ?s2)) \<and>
          task (run ?s2 (replicate m (Done Ok))) = EnsureIdle \<and>
          subscriptions (run ?s2 (replicate m (Done Ok))) = subscriptions ?s2 \<and>
          pending (run ?s2 (replicate m (Done Ok))) = pending ?s2"
      using True Suc.prems by (intro Suc.IH) (simp_all add: replay_from_def)
    then show ?thesis
      using d by (simp add: run_Cons st)
  next
    case False
    then have m: "m = 0" and l: "drop (Suc i) ?subs = []"
      using Suc.prems by simp_all
    show ?thesis
      using False d l by (simp add: m run_Cons st replay_from_def)
  qed
qed

lemma connect_runs:
  assumes "task s = Connect"
  shows "trace (run s (replicate (length (subscriptions s) + 2) (Done Ok))) =
           trace s @ TConnect (subscriptions s) # map (\<lambda>x. TDeclare x True) (subscriptions s) \<and>
         task (run s (replicate (length (subscriptions s) + 2) (Done Ok))) = EnsureIdle \<and>
         subscriptions (run s (replicate (length (subscriptions s) + 2) (Done Ok))) =
           subscriptions s \<and>
         pending (run s (replicate (length (subscriptions s) + 2) (Done Ok))) = pending s"
proof -
  let ?subs = "subscriptions s"
  let ?n = "length ?subs"
  let ?s1 = "s\<lparr>protocol_bound := True, task := Channel\<rparr>"
  let ?s2 = "replay_from 0 (?s1\<lparr>trace := trace ?s1 @ [TConnect (subscriptions ?s1)]\<rparr>)"
  have r: "replicate (?n + 2) (Done Ok) = Done Ok # Done Ok # replicate ?n (Done Ok :: 'a event)"
    by simp
  have 1: "step s (Done Ok) = ?s1"
    using assms by (simp add: listen_step_def)
  have 2: "step ?s1 (Done Ok) = ?s2"
    by (simp add: listen_step_def)
  have run: "run s (replicate (?n + 2) (Done Ok)) = run ?s2 (replicate ?n (Done Ok))"
    unfolding r run_Cons 1 2 ..
  show ?thesis
  proof (cases "?subs = []")
    case True
    then show ?thesis
      unfolding run by (simp add: replay_from_def)
  next
    case False
    then have "task ?s2 = Replay 0" "0 < length (subscriptions ?s2)"
      by (simp_all add: replay_from_def)
    then have "trace (run ?s2 (replicate ?n (Done Ok))) =
            trace ?s2 @ map (\<lambda>x. TDeclare x True) (drop 0 (subscriptions ?s2)) \<and>
          task (run ?s2 (replicate ?n (Done Ok))) = EnsureIdle \<and>
          subscriptions (run ?s2 (replicate ?n (Done Ok))) = subscriptions ?s2 \<and>
          pending (run ?s2 (replicate ?n (Done Ok))) = pending ?s2"
      by (intro replay_runs) simp_all
    then show ?thesis
      unfolding run by simp
  qed
qed

lemma declare_one:
  assumes "task s = Get" and "pending s = Some (x # r)"
  shows "task (run s [Done Ok, Done Ok, Done Ok, Done Ok]) = Get \<and>
         pending (run s [Done Ok, Done Ok, Done Ok, Done Ok]) = Some r \<and>
         subscriptions (run s [Done Ok, Done Ok, Done Ok, Done Ok]) = subscriptions s @ [x] \<and>
         trace (run s [Done Ok, Done Ok, Done Ok, Done Ok]) =
           trace s @ [TDequeue x, TDeclare x True]"
  using assms by (simp add: run_def listen_step_def)

lemma drain_runs:
  "task s = Get \<Longrightarrow> pending s = Some q \<Longrightarrow>
   trace (run s (concat (replicate (length q) [Done Ok, Done Ok, Done Ok, Done Ok]))) =
     trace s @ concat (map (\<lambda>x. [TDequeue x, TDeclare x True]) q) \<and>
   subscriptions (run s (concat (replicate (length q) [Done Ok, Done Ok, Done Ok, Done Ok]))) =
     subscriptions s @ q \<and>
   pending (run s (concat (replicate (length q) [Done Ok, Done Ok, Done Ok, Done Ok]))) = Some [] \<and>
   task (run s (concat (replicate (length q) [Done Ok, Done Ok, Done Ok, Done Ok]))) = Get"
proof (induction q arbitrary: s)
  case Nil
  then show ?case by simp
next
  case (Cons x r)
  let ?four = "[Done Ok, Done Ok, Done Ok, Done Ok] :: 'a event list"
  let ?s4 = "run s ?four"
  have one: "task ?s4 = Get \<and> pending ?s4 = Some r \<and> subscriptions ?s4 = subscriptions s @ [x] \<and>
             trace ?s4 = trace s @ [TDequeue x, TDeclare x True]"
    using Cons.prems by (rule declare_one)
  have ih: "trace (run ?s4 (concat (replicate (length r) ?four))) =
              trace ?s4 @ concat (map (\<lambda>x. [TDequeue x, TDeclare x True]) r) \<and>
            subscriptions (run ?s4 (concat (replicate (length r) ?four))) = subscriptions ?s4 @ r \<and>
            pending (run ?s4 (concat (replicate (length r) ?four))) = Some [] \<and>
            task (run ?s4 (concat (replicate (length r) ?four))) = Get"
    using one by (intro Cons.IH) simp_all
  have "run s (concat (replicate (length (x # r)) ?four)) =
          run ?s4 (concat (replicate (length r) ?four))"
    using run_append[of s ?four "concat (replicate (length r) ?four)"] by simp
  then show ?case
    using ih one by simp
qed

subsection \<open>The concrete scenarios, evaluated\<close>

lemmas eval_defs = run_def started_def startup_def subscribe_def lazy_listen_def listen_step_def
  init_listener_def new_subscription_def set_on_message_def on_exception_def put_back_def
  finally_block_def after_close_def replay_from_def Let_def

lemma started_example:
  "started True example_pre =
     \<lparr>app_loop = True, pending_pre_async = None, pending = Some [sub0], subscriptions = [],
      task = Connect, retrying = False, protocol_bound = False, next_sid = 1,
      accepted = [sub0], enqueued = [sub0], trace = []\<rparr>"
  by (simp add: eval_defs example_pre_def sub0_def)

lemma declaring_state_eq:
  "declaring_state =
     \<lparr>app_loop = True, pending_pre_async = None, pending = Some [], subscriptions = [],
      task = EnsureDecl sub0, retrying = False, protocol_bound = True, next_sid = 1,
      accepted = [sub0], enqueued = [sub0], trace = [TConnect [], TDequeue sub0]\<rparr>"
  unfolding declaring_state_def started_example declaring_events_def
  by (simp add: eval_defs)

lemma reconnect_state_eq:
  "reconnect_state =
     \<lparr>app_loop = True, pending_pre_async = None, pending = Some [], subscriptions = [sub0],
      task = EnsureDecl sub1, retrying = False, protocol_bound = True, next_sid = 2,
      accepted = [sub0, sub1], enqueued = [sub0, sub1],
      trace = [TConnect [], TDequeue sub0, TDeclare sub0 True,
               TConnect [sub0], TDeclare sub0 True, TDequeue sub1]\<rparr>"
  unfolding reconnect_state_def started_example reconnect_events_def
  by (simp add: eval_defs sub1_def)

lemma outage_state_eq:
  "outage_state =
     \<lparr>app_loop = True, pending_pre_async = None, pending = Some [sub1], subscriptions = [sub0],
      task = Connect, retrying = True, protocol_bound = True, next_sid = 2,
      accepted = [sub0, sub1], enqueued = [sub0, sub1],
      trace = [TConnect [], TDequeue sub0, TDeclare sub0 True]\<rparr>"
  unfolding outage_state_def started_example outage_events_def
  by (simp add: eval_defs sub1_def)

lemma idle_state_eq:
  "idle_state =
     \<lparr>app_loop = True, pending_pre_async = None, pending = Some [sub1], subscriptions = [sub0],
      task = Get, retrying = False, protocol_bound = True, next_sid = 2,
      accepted = [sub0, sub1], enqueued = [sub0, sub1],
      trace = [TConnect [], TDequeue sub0, TDeclare sub0 True, TConnect [sub0],
               TDeclare sub0 True]\<rparr>"
  unfolding idle_state_def outage_state_eq
  by (simp add: eval_defs)

subsection \<open>The claims about the listener\<close>

text \<open>
  Claim C1. In every execution of a started listener (any subscriptions before startup,
  any interleaving of later \<^verbatim>\<open>subscribe\<close> calls with steps of the task and any
  outcomes of its awaits): whenever the task takes a subscription \<open>p\<close> from the pending
  queue, the actions of the current session up to that moment (\<open>seg\<close>, everything
  since the last connection) begin with the successful declaration, on that session, of
  every subscription that was active when the session connected, in the order of the
  active list. So no pending subscription is taken, let alone declared, before the
  replay is complete. The list recorded at the connection is a prefix of the active
  list ever after.
\<close>

theorem replay_before_pending:
  "trace (run (started loop pre) evs) = before @ TConnect subs # seg @ TDequeue p # after \<and>
   (\<forall>a \<in> set seg. \<not> is_connect a) \<longrightarrow>
     prefix (map (\<lambda>x. TDeclare x True) subs) seg \<and>
     prefix subs (subscriptions (run (started loop pre) evs))"
proof
  let ?s = "run (started loop pre) evs"
  assume h: "trace ?s = before @ TConnect subs # seg @ TDequeue p # after \<and>
             (\<forall>a \<in> set seg. \<not> is_connect a)"
  have t: "traces_ok ?s"
    using linv_started[of loop pre evs] by (simp add: linv_def sess_def)
  then have "replay_first (trace ?s)"
    by (simp add: traces_ok_def)
  then have 1: "prefix (map (\<lambda>x. TDeclare x True) subs) seg"
    using h unfolding replay_first_def by blast
  have "snapshots_active ?s"
    using t by (simp add: traces_ok_def)
  then have 2: "prefix subs (subscriptions ?s)"
    using h unfolding snapshots_active_def by blast
  show "prefix (map (\<lambda>x. TDeclare x True) subs) seg \<and> prefix subs (subscriptions ?s)"
    using 1 2 by simp
qed

theorem replay_before_pending_witness:
  "trace reconnect_state =
     [TConnect [], TDequeue sub0, TDeclare sub0 True] @ TConnect [sub0] #
     [TDeclare sub0 True] @ TDequeue sub1 # [] \<and>
   prefix (map (\<lambda>x. TDeclare x True) [sub0]) [TDeclare sub0 True] \<and>
   prefix [sub0] (subscriptions reconnect_state)"
  using replay_before_pending [of True example_pre reconnect_events
      "[TConnect [], TDequeue sub0, TDeclare sub0 True]" "[sub0]" "[TDeclare sub0 True]" sub1 "[]"]
  unfolding reconnect_state_def[symmetric]
  by (simp add: reconnect_state_eq)

text \<open>
  Claim C2, as stated, fails: after the task has taken the only subscription from the
  queue and while it awaits \<^verbatim>\<open>protocol.ensure_open()\<close> before declaring it, the
  accepted subscription is neither in the pending collection nor in the active list; it
  is only in the local variable of the task.
\<close>

theorem pending_or_active_counterexample:
  "accepted declaring_state = [sub0] \<and> pending_all declaring_state = [] \<and>
   subscriptions declaring_state = [] \<and> task declaring_state = EnsureDecl sub0"
  by (simp add: declaring_state_eq pending_all_def queue_of_def)

text \<open>
  Claim C2, amended. Before startup (after any \<^verbatim>\<open>subscribe\<close> calls) and at every
  step after it, each accepted subscription is in exactly one of three places: the
  pending collection (holding list or queue), the local variable of the task between
  taking it from the queue and the end of its declaration, and the active list. The
  three lists together hold exactly the accepted subscriptions, each once. Before
  startup the second and the third place are empty: every accepted subscription is in
  the pending collection.
\<close>

theorem pending_in_flight_or_active:
  "(let s = foldl subscribe_args (init_listener loop) pre
    in mset (pending_all s @ in_flight s @ subscriptions s) = mset (accepted s) \<and>
       distinct (accepted s) \<and> in_flight s = [] \<and> subscriptions s = []) \<and>
   (let s = run (started loop pre) evs
    in mset (pending_all s @ in_flight s @ subscriptions s) = mset (accepted s) \<and>
       distinct (accepted s))"
proof -
  let ?s0 = "foldl subscribe_args (init_listener loop) pre"
  have "unstarted ?s0" and p: "placed ?s0"
    using pre_start[of loop pre] by simp_all
  then have f: "in_flight ?s0 = []" "subscriptions ?s0 = []"
    by (simp_all add: unstarted_def in_flight_def)
  have a: "mset (pending_all ?s0 @ in_flight ?s0 @ subscriptions ?s0) = mset (accepted ?s0) \<and>
           distinct (accepted ?s0)"
    using p by (rule placed_exactly_once)
  have "placed (run (started loop pre) evs)"
    using linv_started[of loop pre evs] by (simp add: linv_def)
  then have b: "mset (pending_all (run (started loop pre) evs) @
                      in_flight (run (started loop pre) evs) @
                      subscriptions (run (started loop pre) evs)) =
                  mset (accepted (run (started loop pre) evs)) \<and>
                distinct (accepted (run (started loop pre) evs))"
    by (rule placed_exactly_once)
  show ?thesis
    unfolding Let_def using a b f by blast
qed

theorem pending_in_flight_or_active_witness:
  "mset (pending_all declaring_state @ in_flight declaring_state @ subscriptions declaring_state) =
     mset [sub0] \<and>
   in_flight declaring_state = [sub0] \<and>
   mset (pending_all reconnect_state @ in_flight reconnect_state @ subscriptions reconnect_state) =
     mset [sub0, sub1]"
  using pending_in_flight_or_active [of True example_pre declaring_events]
    pending_in_flight_or_active [of True example_pre reconnect_events]
  unfolding reconnect_state_def[symmetric] declaring_state_def[symmetric] Let_def
  by (simp add: reconnect_state_eq declaring_state_eq in_flight_def)

text \<open>
  Claim C7. In every execution of a started listener (any subscriptions before startup,
  any interleaving of later \<^verbatim>\<open>subscribe\<close> calls with steps of the task, any outcomes
  of its awaits): (1) the subscriptions taken from the pending queue so far, followed by
  the queue, are the subscriptions put into the queue, in the order they were put (first
  in, first out; a subscription put back after a failed declaration counts as a new
  arrival); (2) a subscription taken from the queue is the one declared next: the action
  after it is its own declaration, or a new connection when the open check before the
  declaration failed; (3) of two connections, the active list at the earlier is a prefix
  of the active list at the later, so every replay goes through the active
  subscriptions in the same relative order; (4) within a session the subscriptions
  declared so far agree, position by position, with the active list at the connection.
  And the task does this work: (5) from the await of a connection, when nothing fails,
  it connects and declares every active subscription, each once and in the order of the
  active list, and then enters the inner loop; (6) from the wait on the queue, when
  nothing fails and nothing arrives, it takes the pending subscriptions from the head of
  the queue, declares each right after taking it and appends it to the active list,
  until the queue is empty.
\<close>

theorem replay_order_and_fifo:
  "(let s = run (started loop pre) evs
    in dequeued (trace s) @ queue_of s = enqueued s \<and>
       successively declared_next (trace s) \<and>
       (trace s = a @ TConnect s1 # b @ TConnect s2 # c \<longrightarrow> prefix s1 s2) \<and>
       (trace s = a' @ TConnect subs # seg @ rest \<and> (\<forall>x \<in> set seg. \<not> is_connect x) \<longrightarrow>
          prefix (declared seg) subs \<or> prefix subs (declared seg))) \<and>
   (task t = Connect \<longrightarrow>
      (let t' = run t (replicate (length (subscriptions t) + 2) (Done Ok))
       in trace t' =
            trace t @ TConnect (subscriptions t) # map (\<lambda>x. TDeclare x True) (subscriptions t) \<and>
          task t' = EnsureIdle \<and> subscriptions t' = subscriptions t \<and> pending t' = pending t)) \<and>
   (task u = Get \<and> pending u = Some q \<longrightarrow>
      (let u' = run u (concat (replicate (length q) [Done Ok, Done Ok, Done Ok, Done Ok]))
       in trace u' = trace u @ concat (map (\<lambda>x. [TDequeue x, TDeclare x True]) q) \<and>
          subscriptions u' = subscriptions u @ q \<and> pending u' = Some [] \<and> task u' = Get))"
proof -
  let ?s = "run (started loop pre) evs"
  have l: "linv ?s"
    by (rule linv_started)
  then have 1: "dequeued (trace ?s) @ queue_of ?s = enqueued ?s"
    by (simp add: linv_def fifo_def)
  have t: "traces_ok ?s"
    using l by (simp add: linv_def sess_def)
  have 2: "trace ?s = a @ TConnect s1 # b @ TConnect s2 # c \<longrightarrow> prefix s1 s2"
    using t unfolding traces_ok_def snapshots_grow_def by blast
  have 3: "trace ?s = a' @ TConnect subs # seg @ rest \<and> (\<forall>x \<in> set seg. \<not> is_connect x) \<longrightarrow>
          prefix (declared seg) subs \<or> prefix subs (declared seg)"
    using t unfolding traces_ok_def replay_ordered_def by blast
  have 4: "successively declared_next (trace ?s)"
    using tail_ok_started[of loop pre evs] by (simp add: tail_ok_def)
  have 5: "task t = Connect \<longrightarrow>
      (let t' = run t (replicate (length (subscriptions t) + 2) (Done Ok))
       in trace t' =
            trace t @ TConnect (subscriptions t) # map (\<lambda>x. TDeclare x True) (subscriptions t) \<and>
          task t' = EnsureIdle \<and> subscriptions t' = subscriptions t \<and> pending t' = pending t)"
    unfolding Let_def using connect_runs[of t] by blast
  have 6: "task u = Get \<and> pending u = Some q \<longrightarrow>
      (let u' = run u (concat (replicate (length q) [Done Ok, Done Ok, Done Ok, Done Ok]))
       in trace u' = trace u @ concat (map (\<lambda>x. [TDequeue x, TDeclare x True]) q) \<and>
          subscriptions u' = subscriptions u @ q \<and> pending u' = Some [] \<and> task u' = Get)"
    unfolding Let_def using drain_runs[of u q] by blast
  show ?thesis
    using 1 2 3 4 5 6 by (simp add: Let_def)
qed

theorem replay_order_and_fifo_witness:
  "trace reconnect_state =
     [] @ TConnect [] # [TDequeue sub0, TDeclare sub0 True] @ TConnect [sub0] #
     [TDeclare sub0 True, TDequeue sub1] \<and>
   prefix [] [sub0] \<and>
   trace reconnect_state =
     [TConnect [], TDequeue sub0, TDeclare sub0 True] @ TConnect [sub0] #
     [TDeclare sub0 True, TDequeue sub1] @ [] \<and>
   declared [TDeclare sub0 True, TDequeue sub1] = [sub0] \<and>
   dequeued (trace reconnect_state) = [sub0, sub1] \<and>
   queue_of reconnect_state = [] \<and>
   enqueued reconnect_state = [sub0, sub1] \<and>
   task outage_state = Connect \<and> subscriptions outage_state = [sub0] \<and>
   trace (run outage_state (replicate 3 (Done Ok))) =
     trace outage_state @ [TConnect [sub0], TDeclare sub0 True] \<and>
   task idle_state = Get \<and> pending idle_state = Some [sub1] \<and>
   trace (run idle_state [Done Ok, Done Ok, Done Ok, Done Ok]) =
     trace idle_state @ [TDequeue sub1, TDeclare sub1 True] \<and>
   subscriptions (run idle_state [Done Ok, Done Ok, Done Ok, Done Ok]) = [sub0, sub1]"
  using replay_order_and_fifo [of True example_pre reconnect_events
      "[]" "[]" "[TDequeue sub0, TDeclare sub0 True]" "[sub0]" "[TDeclare sub0 True, TDequeue sub1]"
      "[TConnect [], TDequeue sub0, TDeclare sub0 True]" "[sub0]"
      "[TDeclare sub0 True, TDequeue sub1]" "[]" outage_state idle_state "[sub1]"]
  unfolding reconnect_state_def[symmetric] Let_def
  by (simp add: reconnect_state_eq outage_state_eq idle_state_eq queue_of_def numeral_3_eq_3)

lemma subscribe_while_declaring:
  assumes "task s \<noteq> NoTask" and "pending s = Some q"
  shows "pending (foldl subscribe_args s args) = Some (q @ arrivals s args) \<and>
         task (foldl subscribe_args s args) = task s \<and>
         subscriptions (foldl subscribe_args s args) = subscriptions s"
  using assms
proof (induction args arbitrary: s q)
  case Nil
  then show ?case by simp
next
  case (Cons a args)
  obtain ex rt et cb where a: "a = (ex, rt, et, cb)"
    by (cases a)
  let ?s1 = "subscribe s ex rt et cb"
  have s1: "pending ?s1 = Some (q @ [new_subscription s ex rt et cb])" "task ?s1 = task s"
    "subscriptions ?s1 = subscriptions s"
    using Cons.prems by (simp_all add: subscribe_def Let_def lazy_listen_def)
  have "pending (foldl subscribe_args ?s1 args) =
          Some ((q @ [new_subscription s ex rt et cb]) @ arrivals ?s1 args) \<and>
        task (foldl subscribe_args ?s1 args) = task ?s1 \<and>
        subscriptions (foldl subscribe_args ?s1 args) = subscriptions ?s1"
    using Cons.prems s1 by (intro Cons.IH) simp_all
  then show ?case
    using s1 by (simp add: a)
qed

text \<open>
  Claim C10. While the task declares a subscription \<open>x\<close> taken from the queue,
  \<^verbatim>\<open>subscribe\<close> calls append their subscriptions to the queue and leave the task
  alone; when the declaration then raises (any exception), \<open>x\<close> is put at the tail
  of the queue, behind what was waiting and behind those arrivals, and not into the
  active list. The task takes the head of the queue, so after the reconnect \<open>x\<close> is
  retried after all of them.
\<close>

theorem failed_declare_requeued_at_tail:
  "(task s = Declare x \<and> pending s = Some q \<longrightarrow>
      pending (foldl subscribe_args s args) = Some (q @ arrivals s args) \<and>
      task (foldl subscribe_args s args) = Declare x \<and>
      pending (listen_step (Raise e) (foldl subscribe_args s args)) =
        Some (q @ arrivals s args @ [x]) \<and>
      subscriptions (listen_step (Raise e) (foldl subscribe_args s args)) = subscriptions s) \<and>
   (task s = Get \<and> pending s = Some (y # r) \<longrightarrow>
      task (listen_step Ok s) = EnsureDecl y \<and> pending (listen_step Ok s) = Some r)"
proof (intro conjI impI)
  assume h: "task s = Declare x \<and> pending s = Some q"
  let ?s1 = "foldl subscribe_args s args"
  have 1: "pending ?s1 = Some (q @ arrivals s args) \<and> task ?s1 = task s \<and>
           subscriptions ?s1 = subscriptions s"
    using h by (intro subscribe_while_declaring) simp_all
  then show "pending ?s1 = Some (q @ arrivals s args)" by simp
  show "task ?s1 = Declare x" using 1 h by simp
  show "pending (listen_step (Raise e) ?s1) = Some (q @ arrivals s args @ [x])"
    using 1 h by (simp add: listen_step_def)
  show "subscriptions (listen_step (Raise e) ?s1) = subscriptions s"
    using 1 h by (simp add: listen_step_def)
next
  assume h: "task s = Get \<and> pending s = Some (y # r)"
  then show "task (listen_step Ok s) = EnsureDecl y" by (simp add: listen_step_def)
  show "pending (listen_step Ok s) = Some r" using h by (simp add: listen_step_def)
qed

lemma declaring_sub0_eq:
  "declaring_sub0 =
     \<lparr>app_loop = True, pending_pre_async = None, pending = Some [], subscriptions = [],
      task = Declare sub0, retrying = False, protocol_bound = True, next_sid = 1,
      accepted = [sub0], enqueued = [sub0], trace = [TConnect [], TDequeue sub0]\<rparr>"
  by (simp add: declaring_sub0_def declaring_state_eq listen_step_def)

theorem failed_declare_requeued_at_tail_witness:
  "pending (listen_step (Raise AioamqpException)
      (foldl subscribe_args declaring_sub0 [(''brewblox'', ''sensor.*'', ''topic'', None)])) =
     Some [sub1, sub0] \<and>
   task (listen_step Ok
      (run declaring_sub0 [Subscribe ''brewblox'' ''sensor.*'' ''topic'' None,
         Done (Raise AioamqpException), Done Ok, Done Ok, Done Ok, Done Ok, Done Ok])) =
     EnsureDecl sub1"
  using failed_declare_requeued_at_tail [of declaring_sub0 sub0 "[]"
      "[(''brewblox'', ''sensor.*'', ''topic'', None)]" AioamqpException
      sub1 "[sub0]"]
    failed_declare_requeued_at_tail [of
      "run declaring_sub0 [Subscribe ''brewblox'' ''sensor.*'' ''topic'' None,
         Done (Raise AioamqpException), Done Ok, Done Ok, Done Ok, Done Ok, Done Ok]"
      sub0 "[]" "[]" AioamqpException sub1 "[sub0]"]
  by (simp add: declaring_sub0_eq eval_defs sub1_def)

end
